theory Spec2Isabelle
  imports Complex_Main "HOL-Library.AList"
begin

section \<open>Python values, dictionaries and errors\<close>

text \<open>
  The retrieval core passes Python dictionaries with string keys around
  (\<^verbatim>\<open>Dict[str, Any]\<close>). A dictionary is an association list in insertion order, which
  is the iteration order of a Python \<^verbatim>\<open>dict\<close>: \<^verbatim>\<open>d[k] = v\<close> is \<open>AList.update k v d\<close>
  (an existing key keeps its position, a new key goes to the end), \<^verbatim>\<open>d.get(k)\<close> is
  \<open>map_of d k\<close>, and \<^verbatim>\<open>d.copy()\<close> is the list itself, since values are immutable here.

  Python floats are idealised as real numbers: \<^verbatim>\<open>1 / (k + rank)\<close> is the exact quotient.
  Strings and byte strings are lists of 8-bit characters; a \<^verbatim>\<open>str\<close> is the list of the bytes
  of its UTF-8 encoding, so a string is ASCII text when all its characters are below 128.
\<close>

datatype pyval =
    PNone
  | PStr string
  | PBytes string
  | PNum real
  | PDict "(string \<times> pyval) list"

type_synonym pydict = "(string \<times> pyval) list"

datatype py_error =
    KeyError
  | TypeError
  | ZeroDivisionError
  | AttributeError
  | IndexError
  | LibraryError

text \<open>A dictionary cannot be a dictionary key (\<^verbatim>\<open>TypeError: unhashable type\<close>).\<close>

fun hashable :: "pyval \<Rightarrow> bool" where
  "hashable (PDict _) = False"
| "hashable _ = True"

text \<open>\<^verbatim>\<open>d.get(k, default)\<close> and \<^verbatim>\<open>d[k]\<close>.\<close>

definition get_default :: "pydict \<Rightarrow> string \<Rightarrow> pyval \<Rightarrow> pyval" where
  "get_default d k dflt = (case map_of d k of None \<Rightarrow> dflt | Some v \<Rightarrow> v)"

definition getitem :: "pydict \<Rightarrow> string \<Rightarrow> py_error + pyval" where
  "getitem d k = (case map_of d k of None \<Rightarrow> Inl KeyError | Some v \<Rightarrow> Inr v)"

text \<open>
  Python slicing \<^verbatim>\<open>xs[:k]\<close>: a negative \<open>k\<close> counts from the end, so \<^verbatim>\<open>xs[:-1]\<close> drops the
  last element.
\<close>

definition slice_to :: "'a list \<Rightarrow> int \<Rightarrow> 'a list" where
  "slice_to xs k = (if 0 \<le> k then take (nat k) xs else take (nat (int (length xs) + k)) xs)"


section \<open>Reciprocal rank fusion (\<^verbatim>\<open>Retriever.reciprocal_rank_fusion\<close>)\<close>

text \<open>
  The two accumulators \<^verbatim>\<open>doc_scores\<close> and \<^verbatim>\<open>doc_info\<close> are dictionaries keyed by the
  document id. The body of the inner loop, for the result at 1-based position \<open>rank\<close>:
  \<^verbatim>\<open>result['id']\<close> raises \<^verbatim>\<open>KeyError\<close> on a result without an id, \<^verbatim>\<open>1 / (k + rank)\<close>
  raises \<^verbatim>\<open>ZeroDivisionError\<close> when \<open>k + rank = 0\<close>, and the membership test raises
  \<^verbatim>\<open>TypeError\<close> on an unhashable id, in this order.
\<close>

type_synonym rrf_acc = "(pyval \<times> real) list \<times> (pyval \<times> pydict) list"

definition rrf_step :: "int \<Rightarrow> nat \<Rightarrow> pydict \<Rightarrow> rrf_acc \<Rightarrow> py_error + rrf_acc" where
  "rrf_step k rank result acc =
     (case getitem result ''id'' of
        Inl e \<Rightarrow> Inl e
      | Inr doc_id \<Rightarrow>
          if k + int rank = 0 then Inl ZeroDivisionError
          else if \<not> hashable doc_id then Inl TypeError
          else
            let rrf_score = 1 / real_of_int (k + int rank);
                doc_scores = fst acc;
                doc_info = snd acc;
                acc1 = (if doc_id \<notin> set (map fst doc_scores)
                        then (AList.update doc_id 0 doc_scores, AList.update doc_id result doc_info)
                        else (doc_scores, doc_info))
            in Inr (AList.map_entry doc_id (\<lambda>s. s + rrf_score) (fst acc1), snd acc1))"

text \<open>\<^verbatim>\<open>for rank, result in enumerate(results, start=1)\<close>, the rank carried along.\<close>

fun rrf_results :: "int \<Rightarrow> nat \<Rightarrow> pydict list \<Rightarrow> rrf_acc \<Rightarrow> py_error + rrf_acc" where
  "rrf_results k rank [] acc = Inr acc"
| "rrf_results k rank (result # rest) acc =
     (case rrf_step k rank result acc of
        Inl e \<Rightarrow> Inl e
      | Inr acc' \<Rightarrow> rrf_results k (Suc rank) rest acc')"

text \<open>\<^verbatim>\<open>for results in results_list\<close>.\<close>

fun rrf_lists :: "int \<Rightarrow> pydict list list \<Rightarrow> rrf_acc \<Rightarrow> py_error + rrf_acc" where
  "rrf_lists k [] acc = Inr acc"
| "rrf_lists k (results # rest) acc =
     (case rrf_results k 1 results acc of
        Inl e \<Rightarrow> Inl e
      | Inr acc' \<Rightarrow> rrf_lists k rest acc')"

text \<open>
  \<^verbatim>\<open>sorted(doc_scores.items(), key=lambda x: x[1], reverse=True)\<close>: Python's sort is stable
  also with \<^verbatim>\<open>reverse=True\<close>, so items of equal score keep their insertion order. That is
  the stable insertion sort on the negated score.
\<close>

definition sorted_docs :: "(pyval \<times> real) list \<Rightarrow> (pyval \<times> real) list" where
  "sorted_docs doc_scores = sort_key (\<lambda>x. - snd x) doc_scores"

text \<open>The last loop: copy the first-seen record and set \<^verbatim>\<open>'rrf_score'\<close> in the copy.\<close>

fun fused_results :: "(pyval \<times> pydict) list \<Rightarrow> (pyval \<times> real) list \<Rightarrow> py_error + pydict list" where
  "fused_results doc_info [] = Inr []"
| "fused_results doc_info ((doc_id, score) # rest) =
     (case map_of doc_info doc_id of
        None \<Rightarrow> Inl KeyError
      | Some info \<Rightarrow>
          (case fused_results doc_info rest of
             Inl e \<Rightarrow> Inl e
           | Inr fused \<Rightarrow> Inr (AList.update ''rrf_score'' (PNum score) info # fused)))"

definition reciprocal_rank_fusion :: "pydict list list \<Rightarrow> int \<Rightarrow> py_error + pydict list" where
  "reciprocal_rank_fusion results_list k =
     (case rrf_lists k results_list ([], []) of
        Inl e \<Rightarrow> Inl e
      | Inr acc \<Rightarrow> fused_results (snd acc) (sorted_docs (fst acc)))"


section \<open>The vector store (\<^verbatim>\<open>VectorStore\<close>)\<close>

text \<open>
  The store owns two things: the ChromaDB collection (the dense index) and the dictionary
  \<^verbatim>\<open>content_store\<close> from document id to the stored record. ChromaDB, the sentence
  embedding model and the \<^verbatim>\<open>rank_bm25\<close> package are libraries outside the repository. They
  are parameters of the model, collected in one record: the collection is a value of an
  arbitrary type \<open>'c\<close>, the BM25 object a value of an arbitrary type \<open>'b\<close>, and every
  library call that can raise returns a sum. The last parameter is Python's own
  \<^verbatim>\<open>s.lower().split()\<close> on a \<^verbatim>\<open>str\<close> with characters outside ASCII, where the case mapping
  and the whitespace are those of the Unicode tables. What is proved holds for every
  behaviour of the parameters, unless a theorem states an assumption on them.
\<close>

record hit =
  hit_id :: string
  hit_distance :: real
  hit_metadata :: pydict
  hit_document :: pyval

record ('c, 'b) externals =
  encode :: "pyval \<Rightarrow> py_error + real list"
  create_collection :: 'c
  collection_add :: "'c \<Rightarrow> string list \<Rightarrow> real list list \<Rightarrow> pyval list \<Rightarrow> pydict list \<Rightarrow> py_error + 'c"
  collection_query :: "'c \<Rightarrow> real list \<Rightarrow> int \<Rightarrow> py_error + hit list"
  BM25Okapi :: "pyval list list \<Rightarrow> py_error + 'b"
  get_scores :: "'b \<Rightarrow> pyval list \<Rightarrow> real list"
  str_lower_split :: "string \<Rightarrow> string list"

record 'c vector_store =
  collection :: 'c
  content_store :: "(string \<times> pydict) list"

text \<open>\<^verbatim>\<open>VectorStore.__init__\<close>: a fresh collection and an empty content store.\<close>

definition new_vector_store :: "('c, 'b) externals \<Rightarrow> 'c vector_store" where
  "new_vector_store env = \<lparr>collection = create_collection env, content_store = []\<rparr>"

text \<open>
  \<^verbatim>\<open>add_documents\<close>. The ids are \<^verbatim>\<open>str(uuid.uuid4())\<close>: \<open>uuid4 i\<close> is the id drawn for the
  item at position \<open>i\<close> of the call. The loop fills four lists for the collection and
  writes each record into the content store; \<^verbatim>\<open>item['page']\<close> and \<^verbatim>\<open>item['type']\<close> raise
  \<^verbatim>\<open>KeyError\<close> on an item without them. After a raise the exception leaves the method, and
  the model does not track the half-updated object.
\<close>

record add_acc =
  acc_ids :: "string list"
  acc_documents :: "pyval list"
  acc_embeddings :: "real list list"
  acc_metadatas :: "pydict list"
  acc_store :: "(string \<times> pydict) list"

definition item_summary :: "pydict \<Rightarrow> pyval" where
  "item_summary item = get_default item ''summary'' (get_default item ''content'' (PStr []))"

definition add_item :: "('c, 'b) externals \<Rightarrow> string \<Rightarrow> pydict \<Rightarrow> add_acc \<Rightarrow> py_error + add_acc" where
  "add_item env doc_id item acc =
     (let summary = item_summary item in
      case encode env summary of
        Inl e \<Rightarrow> Inl e
      | Inr embedding \<Rightarrow>
          (case getitem item ''page'' of
             Inl e \<Rightarrow> Inl e
           | Inr page \<Rightarrow>
               (case getitem item ''type'' of
                  Inl e \<Rightarrow> Inl e
                | Inr type \<Rightarrow>
                    Inr \<lparr>acc_ids = acc_ids acc @ [doc_id],
                         acc_documents = acc_documents acc @ [summary],
                         acc_embeddings = acc_embeddings acc @ [embedding],
                         acc_metadatas = acc_metadatas acc @
                           [[(''page'', page), (''type'', type), (''doc_id'', PStr doc_id)]],
                         acc_store = AList.update doc_id
                           [(''original_content'', get_default item ''content'' PNone),
                            (''summary'', summary),
                            (''page'', page),
                            (''type'', type),
                            (''metadata'', get_default item ''metadata'' (PDict []))]
                           (acc_store acc)\<rparr>)))"

fun add_loop :: "('c, 'b) externals \<Rightarrow> (nat \<Rightarrow> string) \<Rightarrow> nat \<Rightarrow> pydict list \<Rightarrow> add_acc \<Rightarrow> py_error + add_acc" where
  "add_loop env uuid4 i [] acc = Inr acc"
| "add_loop env uuid4 i (item # rest) acc =
     (case add_item env (uuid4 i) item acc of
        Inl e \<Rightarrow> Inl e
      | Inr acc' \<Rightarrow> add_loop env uuid4 (Suc i) rest acc')"

definition add_documents :: "('c, 'b) externals \<Rightarrow> (nat \<Rightarrow> string) \<Rightarrow> pydict list \<Rightarrow> 'c vector_store \<Rightarrow> py_error + 'c vector_store" where
  "add_documents env uuid4 summarized_items st =
     (case add_loop env uuid4 0 summarized_items
             \<lparr>acc_ids = [], acc_documents = [], acc_embeddings = [], acc_metadatas = [],
              acc_store = content_store st\<rparr> of
        Inl e \<Rightarrow> Inl e
      | Inr acc \<Rightarrow>
          if acc_ids acc \<noteq> [] then
            (case collection_add env (collection st) (acc_ids acc) (acc_embeddings acc)
                    (acc_documents acc) (acc_metadatas acc) of
               Inl e \<Rightarrow> Inl e
             | Inr c \<Rightarrow> Inr \<lparr>collection = c, content_store = acc_store acc\<rparr>)
          else Inr \<lparr>collection = collection st, content_store = acc_store acc\<rparr>)"

text \<open>
  \<^verbatim>\<open>search\<close>: \<open>collection_query\<close> gives the hits for the one query embedding, that is
  \<^verbatim>\<open>results[...][0]\<close>. A hit whose id is not in the content store gets
  \<^verbatim>\<open>{}.get('original_content')\<close>, which is \<^verbatim>\<open>None\<close>.
\<close>

definition format_hit :: "'c vector_store \<Rightarrow> hit \<Rightarrow> pydict" where
  "format_hit st h =
     [(''id'', PStr (hit_id h)),
      (''distance'', PNum (hit_distance h)),
      (''metadata'', PDict (hit_metadata h)),
      (''document'', hit_document h),
      (''original_content'',
         get_default (case map_of (content_store st) (hit_id h) of None \<Rightarrow> [] | Some d \<Rightarrow> d)
           ''original_content'' PNone),
      (''page'', get_default (hit_metadata h) ''page'' PNone),
      (''type'', get_default (hit_metadata h) ''type'' PNone)]"

definition search :: "('c, 'b) externals \<Rightarrow> 'c vector_store \<Rightarrow> string \<Rightarrow> int \<Rightarrow> py_error + pydict list" where
  "search env st query n_results =
     (case encode env (PStr query) of
        Inl e \<Rightarrow> Inl e
      | Inr query_embedding \<Rightarrow>
          (case collection_query env (collection st) query_embedding n_results of
             Inl e \<Rightarrow> Inl e
           | Inr hits \<Rightarrow> Inr (if hits \<noteq> [] then map (format_hit st) hits else [])))"

text \<open>
  \<^verbatim>\<open>get_original_content\<close> is \<^verbatim>\<open>content_store.get(doc_id)\<close>. The keys of the store are
  strings, so any other id is absent.
\<close>

definition get_original_content :: "'c vector_store \<Rightarrow> pyval \<Rightarrow> pydict option" where
  "get_original_content st doc_id =
     (case doc_id of PStr s \<Rightarrow> map_of (content_store st) s | _ \<Rightarrow> None)"

definition reset :: "('c, 'b) externals \<Rightarrow> 'c vector_store \<Rightarrow> 'c vector_store" where
  "reset env st = \<lparr>collection = create_collection env, content_store = []\<rparr>"

definition get_all_documents :: "'c vector_store \<Rightarrow> pydict list" where
  "get_all_documents st =
     map (\<lambda>(doc_id, content). AList.update ''doc_id'' (PStr doc_id) content) (content_store st)"


section \<open>The retriever (\<^verbatim>\<open>Retriever\<close>)\<close>

text \<open>
  \<^verbatim>\<open>summary.lower().split()\<close>. On ASCII text the upper-case letters are lowered, and
  \<^verbatim>\<open>split()\<close> cuts at runs of whitespace and yields no empty token; the ASCII whitespace
  characters of a \<^verbatim>\<open>str\<close> are 9 to 13, 28 to 31 and 32. On a \<^verbatim>\<open>str\<close> with a character
  outside ASCII the result is the parameter \<open>str_lower_split\<close>. On \<^verbatim>\<open>bytes\<close> the methods
  work on ASCII letters and on the whitespace 9 to 13 and 32 only, whatever the other
  bytes are. A summary that is neither has no \<^verbatim>\<open>lower\<close>: \<^verbatim>\<open>AttributeError\<close>.
\<close>

definition lower_char :: "char \<Rightarrow> char" where
  "lower_char c =
     (let n = (of_char c :: nat) in if 65 \<le> n \<and> n \<le> 90 then char_of (n + 32) else c)"

definition lower :: "string \<Rightarrow> string" where
  "lower s = map lower_char s"

definition str_space :: "char \<Rightarrow> bool" where
  "str_space c = (let n = (of_char c :: nat) in (9 \<le> n \<and> n \<le> 13) \<or> (28 \<le> n \<and> n \<le> 32))"

definition bytes_space :: "char \<Rightarrow> bool" where
  "bytes_space c = (let n = (of_char c :: nat) in (9 \<le> n \<and> n \<le> 13) \<or> n = 32)"

fun split_ws :: "(char \<Rightarrow> bool) \<Rightarrow> string \<Rightarrow> string \<Rightarrow> string list" where
  "split_ws sp cur [] = (if cur = [] then [] else [cur])"
| "split_ws sp cur (c # cs) =
     (if sp c then (if cur = [] then split_ws sp [] cs else cur # split_ws sp [] cs)
      else split_ws sp (cur @ [c]) cs)"

definition ascii :: "string \<Rightarrow> bool" where
  "ascii s = list_all (\<lambda>c. (of_char c :: nat) < 128) s"

definition str_tokens :: "('c, 'b) externals \<Rightarrow> string \<Rightarrow> string list" where
  "str_tokens env s =
     (if ascii s then split_ws str_space [] (lower s) else str_lower_split env s)"

definition tokenize :: "('c, 'b) externals \<Rightarrow> pyval \<Rightarrow> py_error + pyval list" where
  "tokenize env v =
     (case v of
        PStr s \<Rightarrow> Inr (map PStr (str_tokens env s))
      | PBytes s \<Rightarrow> Inr (map PBytes (split_ws bytes_space [] (lower s)))
      | _ \<Rightarrow> Inl AttributeError)"

record 'b retriever =
  bm25 :: "'b option"
  doc_ids :: "pyval list"
  doc_summaries :: "pyval list"

text \<open>The loop of \<^verbatim>\<open>_build_keyword_index\<close> over \<^verbatim>\<open>all_docs\<close>, filling the three lists.\<close>

fun build_loop :: "('c, 'b) externals \<Rightarrow> pydict list \<Rightarrow> pyval list list \<times> pyval list \<times> pyval list
                    \<Rightarrow> py_error + pyval list list \<times> pyval list \<times> pyval list" where
  "build_loop env [] acc = Inr acc"
| "build_loop env (doc # rest) (tokenized_docs, ids, summaries) =
     (let summary = get_default doc ''summary'' (PStr []) in
      case tokenize env summary of
        Inl e \<Rightarrow> Inl e
      | Inr tokens \<Rightarrow>
          build_loop env rest (tokenized_docs @ [tokens],
                           ids @ [get_default doc ''doc_id'' (PStr [])],
                           summaries @ [summary]))"

text \<open>
  \<^verbatim>\<open>_build_keyword_index\<close>. Nothing is assigned when the store has no document: the
  attributes keep the values they had. After a raise the exception leaves the method, and
  the model does not track the half-updated object.
\<close>

definition build_keyword_index :: "('c, 'b) externals \<Rightarrow> 'c vector_store \<Rightarrow> 'b retriever \<Rightarrow> py_error + 'b retriever" where
  "build_keyword_index env st r =
     (let all_docs = get_all_documents st in
      if all_docs \<noteq> [] then
        (case build_loop env all_docs ([], [], []) of
           Inl e \<Rightarrow> Inl e
         | Inr (tokenized_docs, ids, summaries) \<Rightarrow>
             if tokenized_docs \<noteq> [] then
               (case BM25Okapi env tokenized_docs of
                  Inl e \<Rightarrow> Inl e
                | Inr b \<Rightarrow> Inr \<lparr>bm25 = Some b, doc_ids = ids, doc_summaries = summaries\<rparr>)
             else Inr (r\<lparr>doc_ids := ids, doc_summaries := summaries\<rparr>))
      else Inr r)"

text \<open>\<^verbatim>\<open>Retriever.__init__\<close> and \<^verbatim>\<open>rebuild_index\<close>.\<close>

definition new_retriever :: "('c, 'b) externals \<Rightarrow> 'c vector_store \<Rightarrow> py_error + 'b retriever" where
  "new_retriever env st = build_keyword_index env st \<lparr>bm25 = None, doc_ids = [], doc_summaries = []\<rparr>"

definition rebuild_index :: "('c, 'b) externals \<Rightarrow> 'c vector_store \<Rightarrow> 'b retriever \<Rightarrow> py_error + 'b retriever" where
  "rebuild_index env st r = build_keyword_index env st r"

definition dense_search :: "('c, 'b) externals \<Rightarrow> 'c vector_store \<Rightarrow> string \<Rightarrow> int \<Rightarrow> py_error + pydict list" where
  "dense_search env st query k = search env st query k"

text \<open>
  \<^verbatim>\<open>np.argsort(scores)\<close>: the indices in ascending order of score. The order NumPy gives
  to equal scores is not specified; the model takes the stable one, and no theorem below
  depends on it. \<^verbatim>\<open>[::-1]\<close> reverses and \<^verbatim>\<open>[:k]\<close> is the slice.
\<close>

definition argsort :: "real list \<Rightarrow> nat list" where
  "argsort scores = sort_key (\<lambda>i. scores ! i) [0..<length scores]"

definition top_indices :: "real list \<Rightarrow> int \<Rightarrow> nat list" where
  "top_indices scores k = slice_to (rev (argsort scores)) k"

text \<open>
  One keyword result. \<^verbatim>\<open>x.get(...) if original_content else None\<close> tests the truth value
  of the looked-up record: \<^verbatim>\<open>None\<close> and the empty dictionary are false.
\<close>

definition keyword_result :: "'c vector_store \<Rightarrow> pyval \<Rightarrow> real \<Rightarrow> pyval \<Rightarrow> pydict" where
  "keyword_result st doc_id score summary =
     (let original_content = get_original_content st doc_id;
          present = (case original_content of None \<Rightarrow> False | Some d \<Rightarrow> d \<noteq> []);
          oc = (case original_content of None \<Rightarrow> [] | Some d \<Rightarrow> d)
      in [(''id'', doc_id),
          (''score'', PNum score),
          (''document'', summary),
          (''original_content'', if present then get_default oc ''original_content'' PNone else PNone),
          (''page'', if present then get_default oc ''page'' PNone else PNone),
          (''type'', if present then get_default oc ''type'' PNone else PNone),
          (''metadata'', if present then get_default oc ''metadata'' (PDict []) else PDict [])])"

text \<open>
  The result loop of \<^verbatim>\<open>keyword_search\<close>. \<^verbatim>\<open>self.doc_ids[idx]\<close> and
  \<^verbatim>\<open>self.doc_summaries[idx]\<close> raise \<^verbatim>\<open>IndexError\<close> out of range; \<^verbatim>\<open>scores[idx]\<close> is in
  range, since \<open>idx\<close> is an index of \<open>scores\<close>.
\<close>

fun keyword_loop :: "'c vector_store \<Rightarrow> 'b retriever \<Rightarrow> real list \<Rightarrow> nat list \<Rightarrow> py_error + pydict list" where
  "keyword_loop st r scores [] = Inr []"
| "keyword_loop st r scores (idx # rest) =
     (if scores ! idx > 0 then
        (if idx < length (doc_ids r) \<and> idx < length (doc_summaries r) then
           (case keyword_loop st r scores rest of
              Inl e \<Rightarrow> Inl e
            | Inr results \<Rightarrow>
                Inr (keyword_result st (doc_ids r ! idx) (scores ! idx) (doc_summaries r ! idx) # results))
         else Inl IndexError)
      else keyword_loop st r scores rest)"

definition keyword_search :: "('c, 'b) externals \<Rightarrow> 'c vector_store \<Rightarrow> 'b retriever \<Rightarrow> string \<Rightarrow> int \<Rightarrow> py_error + pydict list" where
  "keyword_search env st r query k =
     (case bm25 r of
        None \<Rightarrow> Inr []
      | Some b \<Rightarrow>
          (case tokenize env (PStr query) of
             Inl e \<Rightarrow> Inl e
           | Inr query_tokens \<Rightarrow>
               (let scores = get_scores env b query_tokens
                in keyword_loop st r scores (top_indices scores k))))"

definition retrieve :: "('c, 'b) externals \<Rightarrow> 'c vector_store \<Rightarrow> 'b retriever \<Rightarrow> string \<Rightarrow> int \<Rightarrow> py_error + pydict list" where
  "retrieve env st r query top_k =
     (case dense_search env st query (top_k * 2) of
        Inl e \<Rightarrow> Inl e
      | Inr dense_results \<Rightarrow>
          (case keyword_search env st r query (top_k * 2) of
             Inl e \<Rightarrow> Inl e
           | Inr keyword_results \<Rightarrow>
               (case reciprocal_rank_fusion [dense_results, keyword_results] 60 of
                  Inl e \<Rightarrow> Inl e
                | Inr fused \<Rightarrow> Inr (slice_to fused top_k))))"


section \<open>Notions used in the statements\<close>

text \<open>
  The contribution of the results carrying the id \<open>d\<close> in one list whose first element has
  rank \<open>rank\<close>, and the sum of the contributions over all lists: the sum of 1/(k + r)
  over every occurrence of \<open>d\<close>.
\<close>

fun contribution :: "int \<Rightarrow> pyval \<Rightarrow> nat \<Rightarrow> pydict list \<Rightarrow> real" where
  "contribution k d rank [] = 0"
| "contribution k d rank (result # rest) =
     (if map_of result ''id'' = Some d then 1 / real_of_int (k + int rank) else 0)
       + contribution k d (Suc rank) rest"

definition rrf_total :: "int \<Rightarrow> pyval \<Rightarrow> pydict list list \<Rightarrow> real" where
  "rrf_total k d results_list = sum_list (map (contribution k d 1) results_list)"

text \<open>The first result with the id \<open>d\<close>, reading the lists one after the other.\<close>

definition first_seen :: "pyval \<Rightarrow> pydict list list \<Rightarrow> pydict option" where
  "first_seen d results_list = find (\<lambda>r. map_of r ''id'' = Some d) (concat results_list)"

text \<open>The score an id has in \<^verbatim>\<open>doc_scores\<close>, and what the two accumulators keep in step.\<close>

definition score_of :: "(pyval \<times> real) list \<Rightarrow> pyval \<Rightarrow> real" where
  "score_of sc d = (case map_of sc d of None \<Rightarrow> 0 | Some s \<Rightarrow> s)"

definition acc_inv :: "rrf_acc \<Rightarrow> bool" where
  "acc_inv acc = (distinct (map fst (fst acc)) \<and> map fst (snd acc) = map fst (fst acc))"

text \<open>The record \<^verbatim>\<open>add_documents\<close> writes for an item whose page and type are given.\<close>

definition stored_record :: "pydict \<Rightarrow> pyval \<Rightarrow> pyval \<Rightarrow> pydict" where
  "stored_record item page type =
     [(''original_content'', get_default item ''content'' PNone),
      (''summary'', item_summary item),
      (''page'', page),
      (''type'', type),
      (''metadata'', get_default item ''metadata'' (PDict []))]"

text \<open>The summaries and the ids of the content store, in insertion order.\<close>

definition store_summaries :: "'c vector_store \<Rightarrow> pyval list" where
  "store_summaries st = map (\<lambda>p. get_default (snd p) ''summary'' (PStr [])) (content_store st)"

definition store_ids :: "'c vector_store \<Rightarrow> pyval list" where
  "store_ids st = map (\<lambda>p. PStr (fst p)) (content_store st)"


section \<open>An instance of the libraries, for concrete runs\<close>

text \<open>
  To run the model on concrete inputs the library parameters need values. In this
  instance the collection is the list of its entries and the embedding is constant. A
  query for \<open>n\<close> results returns the first \<open>n\<close> entries and raises when \<open>n\<close> is zero
  or negative, as ChromaDB does when it validates \<^verbatim>\<open>n_results\<close>. The inputs of the runs
  are ASCII text, and outside ASCII the instance tokenises by the ASCII rules. The BM25
  object is the tokenised corpus; the score
  of a document is the number of occurrences of the query tokens in it, a plain
  term-overlap count where \<^verbatim>\<open>rank_bm25\<close> weights each count by the idf of the term and the
  length of the document. The constructor raises \<^verbatim>\<open>ZeroDivisionError\<close> on a corpus without
  any token, as \<^verbatim>\<open>BM25Okapi\<close> does when it divides the sum of the idf values by the size of
  an empty vocabulary.
\<close>

definition overlap_scores :: "pyval list list \<Rightarrow> pyval list \<Rightarrow> real list" where
  "overlap_scores corpus query =
     map (\<lambda>doc. sum_list (map (\<lambda>q. real (count_list doc q)) query)) corpus"

definition sample_env :: "(hit list, pyval list list) externals" where
  "sample_env =
     \<lparr>encode = (\<lambda>v. Inr []),
      create_collection = [],
      collection_add = (\<lambda>c ids embeddings documents metadatas.
         Inr (c @ map (\<lambda>(i, d, m). \<lparr>hit_id = i, hit_distance = 0, hit_metadata = m, hit_document = d\<rparr>)
                    (zip ids (zip documents metadatas)))),
      collection_query = (\<lambda>c e n. if n \<le> 0 then Inl LibraryError else Inr (take (nat n) c)),
      BM25Okapi = (\<lambda>corpus. if concat corpus = [] then Inl ZeroDivisionError else Inr corpus),
      get_scores = overlap_scores,
      str_lower_split = (\<lambda>s. split_ws str_space [] (lower s))\<rparr>"

text \<open>A text item as the document processor and the summarizer produce it.\<close>

definition text_item :: "string \<Rightarrow> real \<Rightarrow> pydict" where
  "text_item s p =
     [(''content'', PStr s), (''page'', PNum p), (''type'', PStr ''text''),
      (''metadata'', PDict []), (''summary'', PStr s)]"

text \<open>Three documents with the ids d1, d2, d3, the store after adding them and the retriever built on it.\<close>

definition sample_uuid4 :: "nat \<Rightarrow> string" where
  "sample_uuid4 i = (if i = 0 then ''d1'' else if i = 1 then ''d2'' else ''d3'')"

definition sample_items :: "pydict list" where
  "sample_items = [text_item ''Alpha alpha'' 1, text_item ''beta'' 2, text_item ''gamma'' 3]"

definition sample_store :: "hit list vector_store" where
  "sample_store =
     \<lparr>collection =
        [\<lparr>hit_id = ''d1'', hit_distance = 0,
          hit_metadata = [(''page'', PNum 1), (''type'', PStr ''text''), (''doc_id'', PStr ''d1'')],
          hit_document = PStr ''Alpha alpha''\<rparr>,
         \<lparr>hit_id = ''d2'', hit_distance = 0,
          hit_metadata = [(''page'', PNum 2), (''type'', PStr ''text''), (''doc_id'', PStr ''d2'')],
          hit_document = PStr ''beta''\<rparr>,
         \<lparr>hit_id = ''d3'', hit_distance = 0,
          hit_metadata = [(''page'', PNum 3), (''type'', PStr ''text''), (''doc_id'', PStr ''d3'')],
          hit_document = PStr ''gamma''\<rparr>],
      content_store =
        [(''d1'', [(''original_content'', PStr ''Alpha alpha''), (''summary'', PStr ''Alpha alpha''),
                   (''page'', PNum 1), (''type'', PStr ''text''), (''metadata'', PDict [])]),
         (''d2'', [(''original_content'', PStr ''beta''), (''summary'', PStr ''beta''),
                   (''page'', PNum 2), (''type'', PStr ''text''), (''metadata'', PDict [])]),
         (''d3'', [(''original_content'', PStr ''gamma''), (''summary'', PStr ''gamma''),
                   (''page'', PNum 3), (''type'', PStr ''text''), (''metadata'', PDict [])])]\<rparr>"

definition sample_retriever :: "pyval list list retriever" where
  "sample_retriever =
     \<lparr>bm25 = Some [[PStr ''alpha'', PStr ''alpha''], [PStr ''beta''], [PStr ''gamma'']],
      doc_ids = [PStr ''d1'', PStr ''d2'', PStr ''d3''],
      doc_summaries = [PStr ''Alpha alpha'', PStr ''beta'', PStr ''gamma'']\<rparr>"

text \<open>A keyword result whose id is not in the content store.\<close>

definition stale_result :: "string \<Rightarrow> real \<Rightarrow> string \<Rightarrow> pydict" where
  "stale_result d s doc =
     [(''id'', PStr d), (''score'', PNum s), (''document'', PStr doc), (''original_content'', PNone),
      (''page'', PNone), (''type'', PNone), (''metadata'', PDict [])]"

text \<open>Two items with the same summary, and the store after adding them to a new store.\<close>

definition twin_items :: "pydict list" where
  "twin_items =
     [[(''content'', PStr ''first''), (''page'', PNum 1), (''type'', PStr ''text''), (''summary'', PStr ''same'')],
      [(''content'', PStr ''second''), (''page'', PNum 2), (''type'', PStr ''table''), (''summary'', PStr ''same'')]]"

definition twin_store :: "hit list vector_store" where
  "twin_store =
     (case add_documents sample_env sample_uuid4 twin_items (new_vector_store sample_env) of
        Inr st \<Rightarrow> st | Inl e \<Rightarrow> new_vector_store sample_env)"

text \<open>The store after adding one text item with the summary \<open>s\<close> to a new store.\<close>

definition single_store :: "string \<Rightarrow> hit list vector_store" where
  "single_store s =
     (case add_documents sample_env sample_uuid4 [text_item s 1] (new_vector_store sample_env) of
        Inr st \<Rightarrow> st | Inl e \<Rightarrow> new_vector_store sample_env)"

text \<open>
  Twelve documents that all contain the query word, with ids u, uu, uuu and so on, the
  store after adding them, the retriever built on it and what \<^verbatim>\<open>retrieve\<close> returns for
  \<^verbatim>\<open>top_k=5\<close>.
\<close>

definition many_uuid4 :: "nat \<Rightarrow> string" where
  "many_uuid4 i = replicate (Suc i) (CHR ''u'')"

definition many_items :: "pydict list" where
  "many_items = map (\<lambda>i. text_item ''alpha'' (real i)) [1..<13]"

definition many_store :: "hit list vector_store" where
  "many_store =
     (case add_documents sample_env many_uuid4 many_items (new_vector_store sample_env) of
        Inr st \<Rightarrow> st | Inl e \<Rightarrow> new_vector_store sample_env)"

definition many_retriever :: "pyval list list retriever" where
  "many_retriever =
     (case new_retriever sample_env many_store of
        Inr r \<Rightarrow> r | Inl e \<Rightarrow> \<lparr>bm25 = None, doc_ids = [], doc_summaries = []\<rparr>)"

definition many_results :: "pydict list" where
  "many_results =
     (case retrieve sample_env many_store many_retriever ''alpha'' 5 of Inr rs \<Rightarrow> rs | Inl e \<Rightarrow> [])"


section \<open>Lemmas on the fusion loops\<close>

lemma map_of_notin: "x \<notin> fst ` set xs \<Longrightarrow> map_of xs x = None"
  by (simp add: map_of_eq_None_iff)

lemma find_append_case:
  "find P (xs @ ys) = (case find P xs of None \<Rightarrow> find P ys | Some x \<Rightarrow> Some x)"
  by (induction xs) auto

lemma map_fst_map_entry: "map fst (AList.map_entry k f xs) = map fst xs"
  by (induction xs) auto

lemma rrf_step_Inr:
  assumes "rrf_step k rank result acc = Inr acc'"
  obtains d where "map_of result ''id'' = Some d" "hashable d" "k + int rank \<noteq> 0"
    "acc' = (AList.map_entry d (\<lambda>s. s + 1 / real_of_int (k + int rank))
               (if d \<in> fst ` set (fst acc) then fst acc else AList.update d 0 (fst acc)),
             if d \<in> fst ` set (fst acc) then snd acc else AList.update d result (snd acc))"
  using assms
  by (auto simp: rrf_step_def getitem_def Let_def split: option.splits if_splits)

lemma rrf_step_inv:
  assumes "rrf_step k rank result acc = Inr acc'" "acc_inv acc"
  shows "acc_inv acc'"
  using assms(1)
proof (rule rrf_step_Inr)
  fix d assume "acc' = (AList.map_entry d (\<lambda>s. s + 1 / real_of_int (k + int rank))
               (if d \<in> fst ` set (fst acc) then fst acc else AList.update d 0 (fst acc)),
             if d \<in> fst ` set (fst acc) then snd acc else AList.update d result (snd acc))"
  with assms(2) show ?thesis
    by (auto simp: acc_inv_def map_fst_map_entry AList.update_keys AList.distinct_update)
qed

lemma rrf_step_keys:
  assumes "rrf_step k rank result acc = Inr acc'"
  shows "fst ` set (fst acc') = fst ` set (fst acc) \<union> {d. map_of result ''id'' = Some d}"
  using assms(1)
proof (rule rrf_step_Inr)
  fix d assume "map_of result ''id'' = Some d" "acc' = (AList.map_entry d (\<lambda>s. s + 1 / real_of_int (k + int rank))
               (if d \<in> fst ` set (fst acc) then fst acc else AList.update d 0 (fst acc)),
             if d \<in> fst ` set (fst acc) then snd acc else AList.update d result (snd acc))"
  then show ?thesis
    by (auto simp: AList.dom_map_entry AList.dom_update)
qed

lemma rrf_step_score:
  assumes "rrf_step k rank result acc = Inr acc'"
  shows "score_of (fst acc') x = score_of (fst acc) x + contribution k x rank [result]"
  using assms(1)
proof (rule rrf_step_Inr)
  fix d assume d: "map_of result ''id'' = Some d"
    and acc': "acc' = (AList.map_entry d (\<lambda>s. s + 1 / real_of_int (k + int rank))
               (if d \<in> fst ` set (fst acc) then fst acc else AList.update d 0 (fst acc)),
             if d \<in> fst ` set (fst acc) then snd acc else AList.update d result (snd acc))"
  show ?thesis
  proof (cases "d \<in> fst ` set (fst acc)")
    case True
    then obtain s where "map_of (fst acc) d = Some s"
      by (cases "map_of (fst acc) d") (auto simp: map_of_eq_None_iff)
    with True d acc' show ?thesis
      by (auto simp: score_of_def AList.map_of_map_entry)
  next
    case False
    then have "map_of (fst acc) d = None"
      by (rule map_of_notin)
    with False d acc' show ?thesis
      by (auto simp: score_of_def AList.map_of_map_entry AList.update_conv')
  qed
qed

lemma rrf_step_info:
  assumes "rrf_step k rank result acc = Inr acc'" "acc_inv acc"
  shows "map_of (snd acc') x =
           (case map_of (snd acc) x of Some i \<Rightarrow> Some i
            | None \<Rightarrow> if map_of result ''id'' = Some x then Some result else None)"
  using assms(1)
proof (rule rrf_step_Inr)
  fix d assume d: "map_of result ''id'' = Some d"
    and acc': "acc' = (AList.map_entry d (\<lambda>s. s + 1 / real_of_int (k + int rank))
               (if d \<in> fst ` set (fst acc) then fst acc else AList.update d 0 (fst acc)),
             if d \<in> fst ` set (fst acc) then snd acc else AList.update d result (snd acc))"
  have same: "fst ` set (snd acc) = fst ` set (fst acc)"
    using assms(2) by (metis acc_inv_def set_map)
  show ?thesis
  proof (cases "d \<in> fst ` set (fst acc)")
    case True
    then obtain i where "map_of (snd acc) d = Some i"
      using same by (cases "map_of (snd acc) d") (auto simp: map_of_eq_None_iff)
    with True d acc' show ?thesis
      by (auto split: option.splits)
  next
    case False
    then have "map_of (snd acc) d = None"
      using same by (simp add: map_of_notin)
    with False d acc' show ?thesis
      by (auto simp: AList.update_conv' split: option.splits)
  qed
qed

lemma rrf_results_inv:
  "rrf_results k rank rs acc = Inr acc' \<Longrightarrow> acc_inv acc \<Longrightarrow> acc_inv acc'"
  by (induction rs arbitrary: rank acc) (auto split: sum.splits dest: rrf_step_inv)

lemma rrf_results_keys:
  "rrf_results k rank rs acc = Inr acc' \<Longrightarrow>
   fst ` set (fst acc') = fst ` set (fst acc) \<union> {d. \<exists>r\<in>set rs. map_of r ''id'' = Some d}"
proof (induction rs arbitrary: rank acc)
  case Nil
  then show ?case by simp
next
  case (Cons r rs)
  then obtain a where a: "rrf_step k rank r acc = Inr a" "rrf_results k (Suc rank) rs a = Inr acc'"
    by (auto split: sum.splits)
  show ?case
    unfolding Cons.IH [OF a(2)] rrf_step_keys [OF a(1)] by auto
qed

lemma rrf_results_score:
  "rrf_results k rank rs acc = Inr acc' \<Longrightarrow>
   score_of (fst acc') x = score_of (fst acc) x + contribution k x rank rs"
proof (induction rs arbitrary: rank acc)
  case Nil
  then show ?case by simp
next
  case (Cons r rs)
  then obtain a where a: "rrf_step k rank r acc = Inr a" "rrf_results k (Suc rank) rs a = Inr acc'"
    by (auto split: sum.splits)
  show ?case
    unfolding Cons.IH [OF a(2)] rrf_step_score [OF a(1)] by simp
qed

lemma rrf_results_info:
  "rrf_results k rank rs acc = Inr acc' \<Longrightarrow> acc_inv acc \<Longrightarrow>
   map_of (snd acc') x =
     (case map_of (snd acc) x of Some i \<Rightarrow> Some i
      | None \<Rightarrow> find (\<lambda>r. map_of r ''id'' = Some x) rs)"
proof (induction rs arbitrary: rank acc)
  case Nil
  then show ?case by (simp split: option.splits)
next
  case (Cons r rs)
  then obtain a where a: "rrf_step k rank r acc = Inr a" "rrf_results k (Suc rank) rs a = Inr acc'"
    by (auto split: sum.splits)
  have inv: "acc_inv a"
    using a(1) Cons.prems(2) by (rule rrf_step_inv)
  show ?case
    unfolding Cons.IH [OF a(2) inv] rrf_step_info [OF a(1) Cons.prems(2)]
    by (simp split: option.splits)
qed

lemma rrf_lists_inv:
  "rrf_lists k rl acc = Inr acc' \<Longrightarrow> acc_inv acc \<Longrightarrow> acc_inv acc'"
  by (induction rl arbitrary: acc) (auto split: sum.splits dest: rrf_results_inv)

lemma rrf_lists_keys:
  "rrf_lists k rl acc = Inr acc' \<Longrightarrow>
   fst ` set (fst acc') = fst ` set (fst acc) \<union> {d. \<exists>r\<in>set (concat rl). map_of r ''id'' = Some d}"
proof (induction rl arbitrary: acc)
  case Nil
  then show ?case by simp
next
  case (Cons rs rl)
  then obtain a where a: "rrf_results k 1 rs acc = Inr a" "rrf_lists k rl a = Inr acc'"
    by (auto split: sum.splits)
  show ?case
    unfolding Cons.IH [OF a(2)] rrf_results_keys [OF a(1)] by auto
qed

lemma rrf_lists_score:
  "rrf_lists k rl acc = Inr acc' \<Longrightarrow>
   score_of (fst acc') x = score_of (fst acc) x + rrf_total k x rl"
proof (induction rl arbitrary: acc)
  case Nil
  then show ?case by (simp add: rrf_total_def)
next
  case (Cons rs rl)
  then obtain a where a: "rrf_results k 1 rs acc = Inr a" "rrf_lists k rl a = Inr acc'"
    by (auto split: sum.splits)
  show ?case
    unfolding Cons.IH [OF a(2)] rrf_results_score [OF a(1)] by (simp add: rrf_total_def)
qed

lemma rrf_lists_info:
  "rrf_lists k rl acc = Inr acc' \<Longrightarrow> acc_inv acc \<Longrightarrow>
   map_of (snd acc') x =
     (case map_of (snd acc) x of Some i \<Rightarrow> Some i | None \<Rightarrow> first_seen x rl)"
proof (induction rl arbitrary: acc)
  case Nil
  then show ?case by (simp add: first_seen_def split: option.splits)
next
  case (Cons rs rl)
  then obtain a where a: "rrf_results k 1 rs acc = Inr a" "rrf_lists k rl a = Inr acc'"
    by (auto split: sum.splits)
  have inv: "acc_inv a"
    using a(1) Cons.prems(2) by (rule rrf_results_inv)
  show ?case
    unfolding Cons.IH [OF a(2) inv] rrf_results_info [OF a(1) Cons.prems(2)]
    by (simp add: first_seen_def find_append_case split: option.splits)
qed

lemma fused_results_map:
  "set (map fst sc) \<subseteq> fst ` set info \<Longrightarrow>
   fused_results info sc =
     Inr (map (\<lambda>(d, s). AList.update ''rrf_score'' (PNum s) (the (map_of info d))) sc)"
proof (induction sc)
  case Nil
  then show ?case by simp
next
  case (Cons p sc)
  obtain d s where p: "p = (d, s)" by (cases p)
  with Cons.prems obtain i where "map_of info d = Some i"
    by (cases "map_of info d") (auto simp: map_of_eq_None_iff)
  with Cons p show ?case by simp
qed

text \<open>What the fusion returns, in one statement.\<close>

lemma reciprocal_rank_fusion_Inr:
  assumes "reciprocal_rank_fusion rl k = Inr out"
  obtains sc where
    "distinct (map fst sc)"
    "set (map fst sc) = {d. \<exists>r\<in>set (concat rl). map_of r ''id'' = Some d}"
    "\<And>d. d \<in> set (map fst sc) \<Longrightarrow> map_of sc d = Some (rrf_total k d rl)"
    "out = map (\<lambda>(d, s). AList.update ''rrf_score'' (PNum s) (the (first_seen d rl))) (sorted_docs sc)"
proof -
  from assms obtain acc where acc: "rrf_lists k rl ([], []) = Inr acc"
    and out: "fused_results (snd acc) (sorted_docs (fst acc)) = Inr out"
    by (auto simp: reciprocal_rank_fusion_def split: sum.splits)
  have inv0: "acc_inv ([], [])" by (simp add: acc_inv_def)
  have inv: "acc_inv acc" using acc inv0 by (rule rrf_lists_inv)
  have keys: "fst ` set (fst acc) = {d. \<exists>r\<in>set (concat rl). map_of r ''id'' = Some d}"
    using rrf_lists_keys [OF acc] by simp
  have score: "score_of (fst acc) d = rrf_total k d rl" for d
    using rrf_lists_score [OF acc, of d] by (simp add: score_of_def)
  have info: "map_of (snd acc) d = first_seen d rl" for d
    using rrf_lists_info [OF acc inv0, of d] by simp
  have same: "fst ` set (snd acc) = fst ` set (fst acc)"
    using inv by (metis acc_inv_def set_map)
  have "fused_results (snd acc) (sorted_docs (fst acc)) =
          Inr (map (\<lambda>(d, s). AList.update ''rrf_score'' (PNum s) (the (map_of (snd acc) d)))
                 (sorted_docs (fst acc)))"
    by (rule fused_results_map) (simp add: sorted_docs_def same)
  with out have o: "out = map (\<lambda>(d, s). AList.update ''rrf_score'' (PNum s) (the (first_seen d rl)))
                 (sorted_docs (fst acc))"
    by (simp add: info)
  have sc: "map_of (fst acc) d = Some (rrf_total k d rl)" if "d \<in> set (map fst (fst acc))" for d
  proof -
    from that obtain s where "map_of (fst acc) d = Some s"
      by (cases "map_of (fst acc) d") (auto simp: map_of_eq_None_iff)
    with score [of d] show ?thesis by (simp add: score_of_def)
  qed
  show ?thesis
    by (rule that [of "fst acc"]) (use inv keys sc o in \<open>auto simp: acc_inv_def\<close>)
qed

lemma first_seen_Some:
  assumes "r \<in> set (concat rl)" "map_of r ''id'' = Some d"
  obtains src where "first_seen d rl = Some src" "map_of src ''id'' = Some d" "src \<in> set (concat rl)"
proof -
  from assms have "find (\<lambda>r. map_of r ''id'' = Some d) (concat rl) \<noteq> None"
    unfolding find_None_iff by blast
  then obtain src where src: "find (\<lambda>r. map_of r ''id'' = Some d) (concat rl) = Some src"
    by blast
  then have m: "map_of src ''id'' = Some d" "src \<in> set (concat rl)"
    unfolding find_Some_iff by (blast, metis nth_mem)
  from src have fs: "first_seen d rl = Some src"
    by (simp add: first_seen_def)
  show ?thesis
    by (rule that [OF fs m])
qed

lemma rrf_step_total:
  assumes "map_of r ''id'' = Some d" "hashable d" "k + int rank \<noteq> 0"
  shows "\<exists>acc'. rrf_step k rank r acc = Inr acc'"
  using assms by (simp add: rrf_step_def getitem_def Let_def)

lemma rrf_results_total:
  "\<forall>r\<in>set rs. \<exists>d. map_of r ''id'' = Some d \<and> hashable d \<Longrightarrow>
   \<forall>i<length rs. k + int (rank + i) \<noteq> 0 \<Longrightarrow>
   \<exists>acc'. rrf_results k rank rs acc = Inr acc'"
proof (induction rs arbitrary: rank acc)
  case Nil
  then show ?case by simp
next
  case (Cons r rs)
  from Cons.prems(1) obtain d where d: "map_of r ''id'' = Some d" "hashable d"
    by auto
  from Cons.prems(2) have "k + int rank \<noteq> 0"
    by force
  with d obtain a where a: "rrf_step k rank r acc = Inr a"
    using rrf_step_total by blast
  have "\<forall>i<length rs. k + int (Suc rank + i) \<noteq> 0"
  proof (intro allI impI)
    fix i assume "i < length rs"
    then have "Suc i < length (r # rs)" by simp
    with Cons.prems(2) have "k + int (rank + Suc i) \<noteq> 0" by blast
    then show "k + int (Suc rank + i) \<noteq> 0" by simp
  qed
  with Cons.IH [of "Suc rank" a] Cons.prems(1)
  obtain acc' where "rrf_results k (Suc rank) rs a = Inr acc'"
    by auto
  with a show ?case by simp
qed

lemma rrf_lists_total:
  "\<forall>r\<in>set (concat rl). \<exists>d. map_of r ''id'' = Some d \<and> hashable d \<Longrightarrow>
   \<forall>rs\<in>set rl. \<forall>i<length rs. k + int (Suc i) \<noteq> 0 \<Longrightarrow>
   \<exists>acc'. rrf_lists k rl acc = Inr acc'"
proof (induction rl arbitrary: acc)
  case Nil
  then show ?case by simp
next
  case (Cons rs rl)
  have "\<exists>a. rrf_results k 1 rs acc = Inr a"
    by (rule rrf_results_total) (use Cons.prems in auto)
  then obtain a where a: "rrf_results k 1 rs acc = Inr a" ..
  from Cons.IH [of a] Cons.prems obtain acc' where "rrf_lists k rl a = Inr acc'"
    by auto
  with a show ?case by simp
qed

lemma reciprocal_rank_fusion_total:
  assumes "\<forall>r\<in>set (concat rl). \<exists>d. map_of r ''id'' = Some d \<and> hashable d"
    and "\<forall>rs\<in>set rl. \<forall>i<length rs. k + int (Suc i) \<noteq> 0"
  shows "\<exists>out. reciprocal_rank_fusion rl k = Inr out"
proof -
  from rrf_lists_total [OF assms] obtain acc where acc: "rrf_lists k rl ([], []) = Inr acc"
    by blast
  have "acc_inv ([], [])" by (simp add: acc_inv_def)
  with acc have "acc_inv acc" by (rule rrf_lists_inv)
  then have "set (map fst (sorted_docs (fst acc))) \<subseteq> fst ` set (snd acc)"
    by (metis acc_inv_def set_map set_sort sorted_docs_def subset_refl)
  from fused_results_map [OF this] acc show ?thesis
    by (simp add: reciprocal_rank_fusion_def)
qed

lemma map_of_update_other: "f \<noteq> k \<Longrightarrow> map_of (AList.update k v al) f = map_of al f"
  by (simp add: AList.update_conv')

lemma sorted_docs_descending: "sorted_wrt (\<lambda>p q. snd q \<le> snd p) (sorted_docs sc)"
proof -
  have "sorted (map (\<lambda>x. - snd x) (sorted_docs sc))"
    unfolding sorted_docs_def by (rule sorted_sort_key)
  then show ?thesis
    by (simp add: sorted_wrt_map)
qed


section \<open>Lemmas on the content store\<close>

lemma add_item_store:
  assumes "add_item env doc_id item acc = Inr acc'"
  obtains page type where "map_of item ''page'' = Some page" "map_of item ''type'' = Some type"
    "acc_store acc' = AList.update doc_id (stored_record item page type) (acc_store acc)"
  using assms
  by (auto simp: add_item_def getitem_def Let_def stored_record_def split: sum.splits option.splits)

lemma add_loop_other:
  "add_loop env uuid4 n items acc = Inr acc' \<Longrightarrow> x \<notin> uuid4 ` {n..<n + length items} \<Longrightarrow>
   map_of (acc_store acc') x = map_of (acc_store acc) x"
proof (induction items arbitrary: n acc)
  case Nil
  then show ?case by simp
next
  case (Cons item items)
  from Cons.prems(1) obtain a where a: "add_item env (uuid4 n) item acc = Inr a"
    and rest: "add_loop env uuid4 (Suc n) items a = Inr acc'"
    by (auto split: sum.splits)
  from Cons.prems(2) have x: "x \<noteq> uuid4 n" "x \<notin> uuid4 ` {Suc n..<Suc n + length items}"
    by (auto simp: image_iff)
  from a obtain page type where
    "acc_store a = AList.update (uuid4 n) (stored_record item page type) (acc_store acc)"
    by (rule add_item_store)
  with x(1) have "map_of (acc_store a) x = map_of (acc_store acc) x"
    by (simp add: AList.update_conv')
  with Cons.IH [OF rest x(2)] show ?case by simp
qed

lemma add_loop_stored:
  "add_loop env uuid4 n items acc = Inr acc' \<Longrightarrow> inj_on uuid4 {n..<n + length items} \<Longrightarrow>
   i < length items \<Longrightarrow>
   \<exists>page type. map_of (items ! i) ''page'' = Some page \<and> map_of (items ! i) ''type'' = Some type
      \<and> map_of (acc_store acc') (uuid4 (n + i)) = Some (stored_record (items ! i) page type)"
proof (induction items arbitrary: n acc i)
  case Nil
  then show ?case by simp
next
  case (Cons item items)
  from Cons.prems(1) obtain a where a: "add_item env (uuid4 n) item acc = Inr a"
    and rest: "add_loop env uuid4 (Suc n) items a = Inr acc'"
    by (auto split: sum.splits)
  from Cons.prems(2) have inj: "inj_on uuid4 {Suc n..<Suc n + length items}"
    by (rule inj_on_subset) auto
  show ?case
  proof (cases i)
    case 0
    from a obtain page type where pt: "map_of item ''page'' = Some page" "map_of item ''type'' = Some type"
      and st: "acc_store a = AList.update (uuid4 n) (stored_record item page type) (acc_store acc)"
      by (rule add_item_store)
    have "uuid4 n \<notin> uuid4 ` {Suc n..<Suc n + length items}"
    proof
      assume "uuid4 n \<in> uuid4 ` {Suc n..<Suc n + length items}"
      then obtain m where m: "m \<in> {Suc n..<Suc n + length items}" "uuid4 n = uuid4 m"
        by blast
      with Cons.prems(2) have "n = m"
        by (auto simp: inj_on_def)
      with m(1) show False by simp
    qed
    with rest have "map_of (acc_store acc') (uuid4 n) = map_of (acc_store a) (uuid4 n)"
      by (rule add_loop_other)
    with st pt 0 show ?thesis
      by (simp add: AList.update_conv')
  next
    case (Suc j)
    with Cons.prems(3) have "j < length items" by simp
    from Cons.IH [OF rest inj this] Suc show ?thesis by simp
  qed
qed


section \<open>Lemmas on the keyword index and the keyword search\<close>

lemma get_default_update_same: "get_default (AList.update k v d) k dflt = v"
  by (simp add: get_default_def AList.update_conv')

lemma get_default_update_other: "f \<noteq> k \<Longrightarrow> get_default (AList.update k v d) f dflt = get_default d f dflt"
  by (simp add: get_default_def AList.update_conv')

lemma build_loop_Inr:
  "build_loop env docs (t, i, s) = Inr (t', i', s') \<Longrightarrow>
   (\<exists>toks. t' = t @ toks
      \<and> map Inr toks = map (\<lambda>doc. tokenize env (get_default doc ''summary'' (PStr []))) docs)
   \<and> i' = i @ map (\<lambda>doc. get_default doc ''doc_id'' (PStr [])) docs
   \<and> s' = s @ map (\<lambda>doc. get_default doc ''summary'' (PStr [])) docs"
proof (induction docs arbitrary: t i s)
  case Nil
  then show ?case by simp
next
  case (Cons doc docs)
  let ?sum = "get_default doc ''summary'' (PStr [])"
  from Cons.prems obtain tokens where tk: "tokenize env ?sum = Inr tokens"
    and rest: "build_loop env docs (t @ [tokens], i @ [get_default doc ''doc_id'' (PStr [])], s @ [?sum])
                 = Inr (t', i', s')"
    by (auto simp: Let_def split: sum.splits)
  from Cons.IH [OF rest] obtain toks where
    "t' = (t @ [tokens]) @ toks"
    "map Inr toks = map (\<lambda>doc. tokenize env (get_default doc ''summary'' (PStr []))) docs"
    "i' = (i @ [get_default doc ''doc_id'' (PStr [])]) @ map (\<lambda>doc. get_default doc ''doc_id'' (PStr [])) docs"
    "s' = (s @ [?sum]) @ map (\<lambda>doc. get_default doc ''summary'' (PStr [])) docs"
    by blast
  with tk show ?case
    by (intro conjI exI [of _ "tokens # toks"]) simp_all
qed

lemma build_keyword_index_nonempty:
  assumes "build_keyword_index env st r0 = Inr r" and "content_store st \<noteq> []"
  shows "\<exists>corpus b. map Inr corpus = map (tokenize env) (store_summaries st)
           \<and> BM25Okapi env corpus = Inr b
           \<and> r = \<lparr>bm25 = Some b, doc_ids = store_ids st, doc_summaries = store_summaries st\<rparr>"
proof -
  from assms(2) have ne: "get_all_documents st \<noteq> []"
    by (simp add: get_all_documents_def)
  with assms(1) obtain t i s where loop: "build_loop env (get_all_documents st) ([], [], []) = Inr (t, i, s)"
    by (auto simp: build_keyword_index_def Let_def split: sum.splits)
  from build_loop_Inr [OF loop] have t: "map Inr t = map (\<lambda>doc. tokenize env (get_default doc ''summary'' (PStr []))) (get_all_documents st)"
    and i: "i = map (\<lambda>doc. get_default doc ''doc_id'' (PStr [])) (get_all_documents st)"
    and s: "s = map (\<lambda>doc. get_default doc ''summary'' (PStr [])) (get_all_documents st)"
    by auto
  have s': "s = store_summaries st"
    unfolding s by (simp add: get_all_documents_def store_summaries_def get_default_update_other split_def)
  have i': "i = store_ids st"
    unfolding i by (simp add: get_all_documents_def store_ids_def get_default_update_same split_def)
  have t': "map Inr t = map (tokenize env) (store_summaries st)"
    unfolding t by (simp add: get_all_documents_def store_summaries_def get_default_update_other split_def)
  from t ne have "t \<noteq> []"
    by (metis map_is_Nil_conv)
  with assms(1) ne loop obtain b where "BM25Okapi env t = Inr b"
    "r = \<lparr>bm25 = Some b, doc_ids = i, doc_summaries = s\<rparr>"
    by (auto simp: build_keyword_index_def Let_def split: sum.splits)
  with s' i' t' show ?thesis by blast
qed

lemma build_keyword_index_empty:
  "content_store st = [] \<Longrightarrow> build_keyword_index env st r = Inr r"
  by (simp add: build_keyword_index_def get_all_documents_def)

lemma build_keyword_index_idem:
  assumes "build_keyword_index env st r0 = Inr r"
  shows "build_keyword_index env st r = Inr r"
  using assms
  by (auto simp: build_keyword_index_def Let_def split: if_splits sum.splits prod.splits)

lemma build_keyword_index_independent:
  assumes "content_store st \<noteq> []"
  shows "build_keyword_index env st r = build_keyword_index env st r'"
proof -
  from assms have ne: "get_all_documents st \<noteq> []"
    by (simp add: get_all_documents_def)
  show ?thesis
  proof (cases "build_loop env (get_all_documents st) ([], [], [])")
    case (Inl e)
    with ne show ?thesis
      by (simp add: build_keyword_index_def Let_def)
  next
    case (Inr res)
    obtain t i s where res: "res = (t, i, s)" by (cases res)
    from build_loop_Inr [OF Inr [unfolded res]] ne have "t \<noteq> []"
      by (metis append_Nil map_is_Nil_conv)
    with Inr res ne show ?thesis
      by (simp add: build_keyword_index_def Let_def split: sum.splits)
  qed
qed

lemma rebuild_index_nonempty:
  "content_store st \<noteq> [] \<Longrightarrow> rebuild_index env st r = new_retriever env st"
  unfolding rebuild_index_def new_retriever_def by (rule build_keyword_index_independent)

text \<open>After a reset the store is empty, and a rebuild on it keeps whatever index there was.\<close>

lemma get_all_documents_reset: "get_all_documents (reset env st) = []"
  by (simp add: get_all_documents_def reset_def)

lemma rebuild_index_after_reset: "rebuild_index env (reset env st) r = Inr r"
  by (simp add: rebuild_index_def build_keyword_index_empty reset_def)

lemma keyword_loop_Inr:
  "keyword_loop st r scores idxs = Inr rs \<Longrightarrow>
   rs = map (\<lambda>i. keyword_result st (doc_ids r ! i) (scores ! i) (doc_summaries r ! i))
          (filter (\<lambda>i. 0 < scores ! i) idxs)"
  by (induction idxs arbitrary: rs) (auto split: if_splits sum.splits)

lemma argsort_sorted: "sorted_wrt (\<lambda>i j. scores ! i \<le> scores ! j) (argsort scores)"
proof -
  have "sorted (map (\<lambda>i. scores ! i) (argsort scores))"
    unfolding argsort_def by (rule sorted_sort_key)
  then show ?thesis
    by (simp add: sorted_wrt_map)
qed

lemma argsort_set: "set (argsort scores) = {0..<length scores}"
  by (simp add: argsort_def)

lemma argsort_distinct: "distinct (argsort scores)"
  by (simp add: argsort_def)

lemma slice_to_take: "\<exists>m. slice_to xs k = take m xs"
  by (auto simp: slice_to_def)

lemma top_indices_props:
  "sorted_wrt (\<lambda>i j. scores ! j \<le> scores ! i) (top_indices scores k)
   \<and> distinct (top_indices scores k)
   \<and> set (top_indices scores k) \<subseteq> {0..<length scores}"
proof -
  obtain m where m: "top_indices scores k = take m (rev (argsort scores))"
    unfolding top_indices_def using slice_to_take by blast
  have "sorted_wrt (\<lambda>i j. scores ! j \<le> scores ! i) (rev (argsort scores))"
    using argsort_sorted [of scores] by (simp add: sorted_wrt_rev)
  then have "sorted_wrt (\<lambda>i j. scores ! j \<le> scores ! i) (take m (rev (argsort scores)))"
    by (rule sorted_wrt_take)
  moreover have "distinct (take m (rev (argsort scores)))"
    by (simp add: argsort_distinct)
  moreover have "set (take m (rev (argsort scores))) \<subseteq> {0..<length scores}"
    using set_take_subset [of m "rev (argsort scores)"] by (simp add: argsort_set)
  ultimately show ?thesis
    unfolding m by blast
qed

lemma top_indices_length: "0 \<le> k \<Longrightarrow> length (top_indices scores k) \<le> nat k"
  by (simp add: top_indices_def slice_to_def)

lemma keyword_search_Inr:
  assumes "keyword_search env st r query k = Inr rs"
  shows "bm25 r = None \<and> rs = []
       \<or> (\<exists>b. bm25 r = Some b
            \<and> rs = map (\<lambda>i. keyword_result st (doc_ids r ! i)
                         (get_scores env b (map PStr (str_tokens env query)) ! i)
                         (doc_summaries r ! i))
                     (filter (\<lambda>i. 0 < get_scores env b (map PStr (str_tokens env query)) ! i)
                        (top_indices (get_scores env b (map PStr (str_tokens env query))) k)))"
proof (cases "bm25 r")
  case None
  with assms show ?thesis by (simp add: keyword_search_def)
next
  case (Some b)
  with assms have "keyword_loop st r (get_scores env b (map PStr (str_tokens env query)))
      (top_indices (get_scores env b (map PStr (str_tokens env query))) k) = Inr rs"
    by (simp add: keyword_search_def tokenize_def Let_def)
  from keyword_loop_Inr [OF this] Some show ?thesis by simp
qed

lemma keyword_loop_range:
  "keyword_loop st r scores idxs = Inr rs \<Longrightarrow>
   \<forall>i\<in>set (filter (\<lambda>i. 0 < scores ! i) idxs). i < length (doc_ids r) \<and> i < length (doc_summaries r)"
  by (induction idxs arbitrary: rs) (auto split: if_splits sum.splits)

lemma filter_take_descending:
  "sorted_wrt (\<lambda>i j. f j \<le> f i) xs \<Longrightarrow>
   filter (\<lambda>i. (0::real) < f i) (take m xs) = take m (filter (\<lambda>i. 0 < f i) xs)"
proof (induction xs arbitrary: m)
  case Nil
  then show ?case by simp
next
  case (Cons x xs)
  show ?case
  proof (cases m)
    case 0
    then show ?thesis by simp
  next
    case (Suc m')
    show ?thesis
    proof (cases "0 < f x")
      case True
      with Cons Suc show ?thesis by simp
    next
      case False
      with Cons.prems have "\<forall>j\<in>set xs. \<not> 0 < f j"
        by fastforce
      then have "filter (\<lambda>i. 0 < f i) xs = []" "filter (\<lambda>i. 0 < f i) (take m' xs) = []"
        by (auto simp: filter_empty_conv dest: in_set_takeD)
      with False Suc show ?thesis by simp
    qed
  qed
qed

lemma slice_to_eq_take:
  "slice_to xs k = take (if 0 \<le> k then nat k else nat (int (length xs) + k)) xs"
  by (simp add: slice_to_def)

text \<open>The indices the result loop keeps: the best of the indices with a score above zero.\<close>

lemma kept_indices:
  fixes scores :: "real list"
  assumes idxs_def: "idxs = filter (\<lambda>i. 0 < scores ! i) (top_indices scores k)"
  shows "distinct idxs"
    and "\<forall>i\<in>set idxs. i < length scores \<and> 0 < scores ! i"
    and "sorted_wrt (\<lambda>i j. scores ! j \<le> scores ! i) idxs"
    and "length idxs = min (if 0 \<le> k then nat k else nat (int (length scores) + k))
                           (card {i. i < length scores \<and> 0 < scores ! i})"
    and "\<forall>i\<in>set idxs. \<forall>j. j < length scores \<and> 0 < scores ! j \<and> j \<notin> set idxs
            \<longrightarrow> scores ! j \<le> scores ! i"
proof -
  define xs where "xs = rev (argsort scores)"
  define m where "m = (if 0 \<le> k then nat k else nat (int (length scores) + k))"
  define ys where "ys = filter (\<lambda>i. 0 < scores ! i) xs"
  have len: "length xs = length scores"
    by (simp add: xs_def argsort_def)
  have sx: "sorted_wrt (\<lambda>i j. scores ! j \<le> scores ! i) xs"
    using argsort_sorted [of scores] by (simp add: xs_def sorted_wrt_rev)
  have dx: "distinct xs" and setx: "set xs = {0..<length scores}"
    by (simp_all add: xs_def argsort_distinct argsort_set)
  have top: "top_indices scores k = take m xs"
    unfolding top_indices_def xs_def [symmetric] m_def slice_to_eq_take len ..
  have idxs: "idxs = take m ys"
    unfolding idxs_def top ys_def using sx by (rule filter_take_descending)
  have dy: "distinct ys" and sy: "sorted_wrt (\<lambda>i j. scores ! j \<le> scores ! i) ys"
    using dx sx by (simp_all add: ys_def sorted_wrt_filter)
  have sety: "set ys = {i. i < length scores \<and> 0 < scores ! i}"
    by (auto simp: ys_def setx)
  have leny: "length ys = card {i. i < length scores \<and> 0 < scores ! i}"
    using distinct_card [OF dy] sety by simp
  show "distinct idxs"
    using dy by (simp add: idxs)
  show "\<forall>i\<in>set idxs. i < length scores \<and> 0 < scores ! i"
    using sety by (auto simp: idxs dest: in_set_takeD)
  show "sorted_wrt (\<lambda>i j. scores ! j \<le> scores ! i) idxs"
    unfolding idxs using sy by (rule sorted_wrt_take)
  show "length idxs = min (if 0 \<le> k then nat k else nat (int (length scores) + k))
                           (card {i. i < length scores \<and> 0 < scores ! i})"
    by (simp add: idxs leny m_def min.commute)
  show "\<forall>i\<in>set idxs. \<forall>j. j < length scores \<and> 0 < scores ! j \<and> j \<notin> set idxs
            \<longrightarrow> scores ! j \<le> scores ! i"
  proof (intro ballI allI impI)
    fix i j
    assume i: "i \<in> set idxs" and j: "j < length scores \<and> 0 < scores ! j \<and> j \<notin> set idxs"
    from j sety have "j \<in> set ys" by simp
    then have "j \<in> set (take m ys) \<union> set (drop m ys)"
      by (metis append_take_drop_id set_append)
    with j have jd: "j \<in> set (drop m ys)"
      by (simp add: idxs)
    from sy have "sorted_wrt (\<lambda>i j. scores ! j \<le> scores ! i) (take m ys @ drop m ys)"
      by simp
    then have "\<forall>a\<in>set (take m ys). \<forall>b\<in>set (drop m ys). scores ! b \<le> scores ! a"
      unfolding sorted_wrt_append by blast
    with i jd show "scores ! j \<le> scores ! i"
      by (simp add: idxs)
  qed
qed

lemma keyword_result_id: "map_of (keyword_result st d s doc) ''id'' = Some d"
  by (simp add: keyword_result_def Let_def)

lemma keyword_loop_store:
  "keyword_loop st r scores idxs = Inr rs \<Longrightarrow>
   \<exists>rs'. keyword_loop st' r scores idxs = Inr rs'
      \<and> map (\<lambda>x. map_of x ''id'') rs' = map (\<lambda>x. map_of x ''id'') rs"
proof (induction idxs arbitrary: rs)
  case Nil
  then show ?case by simp
next
  case (Cons i idxs)
  show ?case
  proof (cases "0 < scores ! i")
    case True
    with Cons.prems obtain tl where ok: "i < length (doc_ids r)" "i < length (doc_summaries r)"
      and tl: "keyword_loop st r scores idxs = Inr tl"
      and rs: "rs = keyword_result st (doc_ids r ! i) (scores ! i) (doc_summaries r ! i) # tl"
      by (auto split: if_splits sum.splits)
    from Cons.IH [OF tl] obtain tl' where "keyword_loop st' r scores idxs = Inr tl'"
      "map (\<lambda>x. map_of x ''id'') tl' = map (\<lambda>x. map_of x ''id'') tl"
      by blast
    with True ok rs show ?thesis
      by (simp add: keyword_result_id)
  next
    case False
    with Cons show ?thesis by simp
  qed
qed


section \<open>Runs of the instance\<close>

lemma sample_added:
  "add_documents sample_env sample_uuid4 sample_items (new_vector_store sample_env) = Inr sample_store"
  by code_simp

lemma sample_built: "new_retriever sample_env sample_store = Inr sample_retriever"
  by code_simp

lemma kw_stale: "keyword_search sample_env (reset sample_env sample_store) sample_retriever ''alpha beta'' 10
  = Inr [stale_result ''d1'' 2 ''Alpha alpha'', stale_result ''d2'' 1 ''beta'']"
  by code_simp


section \<open>The worked example of the fusion\<close>

text \<open>
  C1 (as amended). For L1 = [A, B, C] and L2 = [B, C, D] with k = 60, whatever other fields
  the four records carry, the fusion returns B, C, A, D in this order, each record being
  its first-seen input record with \<^verbatim>\<open>rrf_score\<close> set to the sum of 1/(60 + r) over its
  ranks r: B gets 1/62 + 1/61, C gets 1/63 + 1/62, A gets 1/61, and D, which is third in
  L2, gets 1/63. A and D, each in one list only, are in the output with their single
  contribution.
\<close>

theorem rrf_example:
  "reciprocal_rank_fusion
     [[(''id'', PStr ''A'') # a, (''id'', PStr ''B'') # b, (''id'', PStr ''C'') # c],
      [(''id'', PStr ''B'') # b', (''id'', PStr ''C'') # c', (''id'', PStr ''D'') # d]] 60
   = Inr [(''id'', PStr ''B'') # AList.update ''rrf_score'' (PNum (1 / 62 + 1 / 61)) b,
          (''id'', PStr ''C'') # AList.update ''rrf_score'' (PNum (1 / 63 + 1 / 62)) c,
          (''id'', PStr ''A'') # AList.update ''rrf_score'' (PNum (1 / 61)) a,
          (''id'', PStr ''D'') # AList.update ''rrf_score'' (PNum (1 / 63)) d]"
  by (simp add: reciprocal_rank_fusion_def rrf_step_def getitem_def sorted_docs_def Let_def)

text \<open>
  C1 as stated gives D the score 1/62. On the records that carry an id only, the fusion
  does not return that list: D is at rank 3 of L2 and its score is 1/63.
\<close>

theorem rrf_example_counterexample:
  "reciprocal_rank_fusion
     [[[(''id'', PStr ''A'')], [(''id'', PStr ''B'')], [(''id'', PStr ''C'')]],
      [[(''id'', PStr ''B'')], [(''id'', PStr ''C'')], [(''id'', PStr ''D'')]]] 60
   \<noteq> Inr [[(''id'', PStr ''B''), (''rrf_score'', PNum (1 / 62 + 1 / 61))],
           [(''id'', PStr ''C''), (''rrf_score'', PNum (1 / 63 + 1 / 62))],
           [(''id'', PStr ''A''), (''rrf_score'', PNum (1 / 61))],
           [(''id'', PStr ''D''), (''rrf_score'', PNum (1 / 62))]]"
  by (simp add: reciprocal_rank_fusion_def rrf_step_def getitem_def sorted_docs_def Let_def)


section \<open>Retrieval returns at most \<^verbatim>\<open>top_k\<close> results\<close>

text \<open>
  C2. For every query and every \<^verbatim>\<open>top_k\<close>, whatever the embedding model and the BM25
  package do: when \<^verbatim>\<open>retrieve(query, top_k)\<close> returns, it has asked the dense search and the
  keyword search for 2 * top_k candidates each. The fused ranking holds every id of the
  two candidate lists exactly once, each with the sum of 1/(60 + r) over its ranks in the
  two lists, in descending order of that sum, and the results are the slice
  \<^verbatim>\<open>[:top_k]\<close> of that ranking, each the first-seen candidate record with \<^verbatim>\<open>rrf_score\<close> set.
  For a \<^verbatim>\<open>top_k\<close> that is not negative these are at most top_k results. When the dense
  index rejects a request for zero or fewer results, as ChromaDB does, \<^verbatim>\<open>retrieve\<close> returns
  for a positive \<^verbatim>\<open>top_k\<close> only, and so returns at most top_k results for every \<^verbatim>\<open>top_k\<close>.
\<close>

theorem retrieve_at_most_top_k:
  assumes "retrieve env st r query top_k = Inr results"
  shows "\<exists>dense keyword ranked.
           dense_search env st query (2 * top_k) = Inr dense
         \<and> keyword_search env st r query (2 * top_k) = Inr keyword
         \<and> distinct (map fst ranked)
         \<and> set (map fst ranked) = {d. \<exists>x\<in>set (dense @ keyword). map_of x ''id'' = Some d}
         \<and> (\<forall>p\<in>set ranked. snd p = rrf_total 60 (fst p) [dense, keyword]
                \<and> first_seen (fst p) [dense, keyword] \<noteq> None)
         \<and> sorted_wrt (\<lambda>p q. snd q \<le> snd p) ranked
         \<and> results = slice_to (map (\<lambda>p. AList.update ''rrf_score'' (PNum (snd p))
                                       (the (first_seen (fst p) [dense, keyword]))) ranked) top_k
         \<and> (0 \<le> top_k \<longrightarrow> length results \<le> nat top_k)
         \<and> ((\<forall>c e m. m \<le> 0 \<longrightarrow> (\<exists>err. collection_query env c e m = Inl err))
               \<longrightarrow> 0 < top_k \<and> int (length results) \<le> top_k)"
proof -
  from assms obtain dense keyword fused where
    dense: "dense_search env st query (2 * top_k) = Inr dense"
    and keyword: "keyword_search env st r query (2 * top_k) = Inr keyword"
    and fused: "reciprocal_rank_fusion [dense, keyword] 60 = Inr fused"
    and results: "results = slice_to fused top_k"
    by (auto simp: retrieve_def mult.commute split: sum.splits)
  from fused show ?thesis
  proof (rule reciprocal_rank_fusion_Inr)
    fix sc
    assume dist: "distinct (map fst sc)"
      and keys: "set (map fst sc) = {d. \<exists>r\<in>set (concat [dense, keyword]). map_of r ''id'' = Some d}"
      and total: "\<And>d. d \<in> set (map fst sc) \<Longrightarrow> map_of sc d = Some (rrf_total 60 d [dense, keyword])"
      and out: "fused = map (\<lambda>(d, s). AList.update ''rrf_score'' (PNum s)
                               (the (first_seen d [dense, keyword]))) (sorted_docs sc)"
    define ranked where "ranked = sorted_docs sc"
    have c1: "distinct (map fst ranked)"
      using dist by (simp add: ranked_def sorted_docs_def distinct_map)
    have c2: "set (map fst ranked) = {d. \<exists>x\<in>set (dense @ keyword). map_of x ''id'' = Some d}"
      using keys by (simp add: ranked_def sorted_docs_def)
    have c3: "\<forall>p\<in>set ranked. snd p = rrf_total 60 (fst p) [dense, keyword]
                \<and> first_seen (fst p) [dense, keyword] \<noteq> None"
    proof
      fix p assume "p \<in> set ranked"
      then have p: "p \<in> set sc" by (simp add: ranked_def sorted_docs_def)
      then have k: "fst p \<in> set (map fst sc)" by simp
      have "map_of sc (fst p) = Some (snd p)"
        using dist p by simp
      with total [OF k] have s: "snd p = rrf_total 60 (fst p) [dense, keyword]" by simp
      from k keys obtain x where "x \<in> set (concat [dense, keyword])" "map_of x ''id'' = Some (fst p)"
        by blast
      then obtain src where "first_seen (fst p) [dense, keyword] = Some src"
        by (rule first_seen_Some)
      with s show "snd p = rrf_total 60 (fst p) [dense, keyword]
                \<and> first_seen (fst p) [dense, keyword] \<noteq> None"
        by simp
    qed
    have c4: "sorted_wrt (\<lambda>p q. snd q \<le> snd p) ranked"
      unfolding ranked_def by (rule sorted_docs_descending)
    have c5: "results = slice_to (map (\<lambda>p. AList.update ''rrf_score'' (PNum (snd p))
                                       (the (first_seen (fst p) [dense, keyword]))) ranked) top_k"
      unfolding results out ranked_def by (simp add: split_def)
    have c6: "0 \<le> top_k \<longrightarrow> length results \<le> nat top_k"
      by (simp add: results slice_to_def)
    have c7: "0 < top_k \<and> int (length results) \<le> top_k"
      if lib: "\<forall>c e m. m \<le> 0 \<longrightarrow> (\<exists>err. collection_query env c e m = Inl err)"
    proof -
      from dense obtain e hits where "collection_query env (collection st) e (2 * top_k) = Inr hits"
        by (auto simp: dense_search_def search_def split: sum.splits)
      with lib have "\<not> 2 * top_k \<le> 0"
        by (metis Inl_Inr_False)
      then have "0 < top_k" by simp
      with c6 show ?thesis by simp
    qed
    from dense keyword c1 c2 c3 c4 c5 c6 c7 show ?thesis
      by blast
  qed
qed

text \<open>
  With twelve matching documents and \<^verbatim>\<open>top_k=5\<close>, each index returns ten candidates and
  \<^verbatim>\<open>retrieve\<close> returns five results; with \<^verbatim>\<open>top_k=-1\<close> the dense index raises.
\<close>

theorem retrieve_at_most_top_k_witness:
  "int (length many_results) \<le> 5
   \<and> length many_results = 5
   \<and> map_sum id length (dense_search sample_env many_store ''alpha'' 10) = Inr 10
   \<and> map_sum id length (keyword_search sample_env many_store many_retriever ''alpha'' 10) = Inr 10
   \<and> retrieve sample_env many_store many_retriever ''alpha'' 5 = Inr many_results
   \<and> retrieve sample_env many_store many_retriever ''alpha'' (- 1) = Inl LibraryError"
proof -
  have h1: "retrieve sample_env many_store many_retriever ''alpha'' 5 = Inr many_results"
    by code_simp
  have h2: "\<forall>c e m. m \<le> 0 \<longrightarrow> (\<exists>err. collection_query sample_env c e m = Inl err)"
    by (simp add: sample_env_def)
  from retrieve_at_most_top_k [OF h1] h2 have "int (length many_results) \<le> 5"
    by blast
  moreover have "length many_results = 5"
    by code_simp
  moreover have "map_sum id length (dense_search sample_env many_store ''alpha'' 10) = Inr 10"
    by code_simp
  moreover have "map_sum id length (keyword_search sample_env many_store many_retriever ''alpha'' 10) = Inr 10"
    by code_simp
  moreover have "retrieve sample_env many_store many_retriever ''alpha'' (- 1) = Inl LibraryError"
    by code_simp
  ultimately show ?thesis
    using h1 by blast
qed


section \<open>Adding documents and reading them back\<close>

text \<open>
  C3. When \<^verbatim>\<open>add_documents\<close> returns and the ids drawn for the items of the call are
  pairwise distinct, \<^verbatim>\<open>get_original_content\<close> with the id of the item at position \<open>i\<close>
  returns exactly the record written for that item: its content, its summary, its page,
  its type and its metadata. No other item of the call has that id, so no lookup returns
  the record of another item, also when two items have the same summary; and an id that
  was not drawn in the call resolves as it did before the call.
\<close>

theorem add_then_get_roundtrip:
  assumes "add_documents env uuid4 items st = Inr st'"
    and "inj_on uuid4 {..<length items}"
    and "i < length items"
  shows "\<exists>page type. map_of (items ! i) ''page'' = Some page \<and> map_of (items ! i) ''type'' = Some type
           \<and> get_original_content st' (PStr (uuid4 i)) = Some (stored_record (items ! i) page type)
           \<and> (\<forall>j<length items. j \<noteq> i \<longrightarrow> uuid4 j \<noteq> uuid4 i)
           \<and> (\<forall>x. x \<notin> uuid4 ` {..<length items} \<longrightarrow>
                 get_original_content st' (PStr x) = get_original_content st (PStr x))"
proof -
  from assms(1) obtain acc where
    loop: "add_loop env uuid4 0 items
             \<lparr>acc_ids = [], acc_documents = [], acc_embeddings = [], acc_metadatas = [],
              acc_store = content_store st\<rparr> = Inr acc"
    and st': "content_store st' = acc_store acc"
    by (auto simp: add_documents_def split: sum.splits if_splits)
  from assms(2) have inj: "inj_on uuid4 {0..<0 + length items}"
    by (simp add: atLeast0LessThan)
  from add_loop_stored [OF loop inj assms(3)] st'
  have "\<exists>page type. map_of (items ! i) ''page'' = Some page \<and> map_of (items ! i) ''type'' = Some type
           \<and> get_original_content st' (PStr (uuid4 i)) = Some (stored_record (items ! i) page type)"
    by (simp add: get_original_content_def)
  moreover have "\<forall>j<length items. j \<noteq> i \<longrightarrow> uuid4 j \<noteq> uuid4 i"
    using assms(2,3) by (auto simp: inj_on_def)
  moreover have "get_original_content st' (PStr x) = get_original_content st (PStr x)"
    if "x \<notin> uuid4 ` {..<length items}" for x
  proof -
    from that have "x \<notin> uuid4 ` {0..<0 + length items}"
      by (simp add: atLeast0LessThan)
    from add_loop_other [OF loop this] st' show ?thesis
      by (simp add: get_original_content_def)
  qed
  ultimately show ?thesis by blast
qed

text \<open>Two items with the summary \<open>same\<close>: each id gives back its own content, page and type.\<close>

theorem add_then_get_roundtrip_witness:
  "get_original_content twin_store (PStr ''d1'')
     = Some [(''original_content'', PStr ''first''), (''summary'', PStr ''same''), (''page'', PNum 1),
             (''type'', PStr ''text''), (''metadata'', PDict [])]
   \<and> get_original_content twin_store (PStr ''d2'')
     = Some [(''original_content'', PStr ''second''), (''summary'', PStr ''same''), (''page'', PNum 2),
             (''type'', PStr ''table''), (''metadata'', PDict [])]"
proof -
  have h1: "add_documents sample_env sample_uuid4 twin_items (new_vector_store sample_env) = Inr twin_store"
    by code_simp
  have h2: "inj_on sample_uuid4 {..<length twin_items}"
    by (auto simp: inj_on_def sample_uuid4_def twin_items_def split: if_splits)
  have l0: "0 < length twin_items" and l1: "1 < length twin_items"
    by (simp_all add: twin_items_def)
  from add_then_get_roundtrip [OF h1 h2 l0] add_then_get_roundtrip [OF h1 h2 l1]
  show ?thesis
    by (auto simp: twin_items_def stored_record_def sample_uuid4_def item_summary_def get_default_def)
qed


section \<open>The empty corpus\<close>

text \<open>
  C4 (as amended). On a store that is new or has just been reset, constructing a
  retriever leaves \<^verbatim>\<open>bm25\<close> unset without calling \<^verbatim>\<open>BM25Okapi\<close>, and with that retriever
  keyword search returns the empty list for every query and every \<open>n\<close>. Dense search
  returns the empty list when the embedding of the query succeeds and the dense index
  returns no hit for its empty collection at the \<open>n\<close> asked for, and \<^verbatim>\<open>retrieve\<close> returns
  the empty list when that holds at 2 * top_k. The short cut is taken for the empty store
  only: on every store with at least one document, so also with exactly one, a build that
  returns has constructed the BM25 object.
\<close>

theorem empty_corpus_returns_empty:
  assumes "st = new_vector_store env \<or> st = reset env st0"
  shows "new_retriever env st = Inr \<lparr>bm25 = None, doc_ids = [], doc_summaries = []\<rparr>
       \<and> (\<forall>r. new_retriever env st = Inr r \<longrightarrow> keyword_search env st r query n = Inr [])
       \<and> (\<forall>e. encode env (PStr query) = Inr e
               \<and> collection_query env (create_collection env) e n = Inr []
             \<longrightarrow> dense_search env st query n = Inr [])
       \<and> (\<forall>e r. encode env (PStr query) = Inr e
               \<and> collection_query env (create_collection env) e (top_k * 2) = Inr []
               \<and> new_retriever env st = Inr r
             \<longrightarrow> retrieve env st r query top_k = Inr [])
       \<and> (\<forall>st' r r'. content_store st' \<noteq> [] \<and> build_keyword_index env st' r = Inr r'
             \<longrightarrow> bm25 r' \<noteq> None)"
proof -
  from assms have st: "st = \<lparr>collection = create_collection env, content_store = []\<rparr>"
    by (auto simp: new_vector_store_def reset_def)
  have nr: "new_retriever env st = Inr \<lparr>bm25 = None, doc_ids = [], doc_summaries = []\<rparr>"
    by (simp add: new_retriever_def build_keyword_index_empty st)
  have kw: "keyword_search env st \<lparr>bm25 = None, doc_ids = [], doc_summaries = []\<rparr> query m = Inr []" for m
    by (simp add: keyword_search_def)
  have dense: "dense_search env st query m = Inr []"
    if "encode env (PStr query) = Inr e" "collection_query env (create_collection env) e m = Inr []"
    for e m
    using that by (simp add: dense_search_def search_def st)
  have fuse: "reciprocal_rank_fusion [[], []] 60 = Inr []"
    by (simp add: reciprocal_rank_fusion_def sorted_docs_def)
  have ret: "retrieve env st \<lparr>bm25 = None, doc_ids = [], doc_summaries = []\<rparr> query top_k = Inr []"
    if "encode env (PStr query) = Inr e"
      "collection_query env (create_collection env) e (top_k * 2) = Inr []" for e
    using dense [OF that] by (simp add: retrieve_def kw fuse slice_to_def)
  have built: "bm25 r' \<noteq> None"
    if "content_store st' \<noteq> []" "build_keyword_index env st' r = Inr r'" for st' :: "'a vector_store" and r r'
    using build_keyword_index_nonempty [OF that(2,1)] by auto
  from nr kw dense ret built show ?thesis
    by auto
qed

text \<open>The new store of the instance: the retriever has no index and the three searches are empty.\<close>

theorem empty_corpus_returns_empty_witness:
  "new_retriever sample_env (new_vector_store sample_env)
     = Inr \<lparr>bm25 = None, doc_ids = [], doc_summaries = []\<rparr>
   \<and> dense_search sample_env (new_vector_store sample_env) ''alpha'' 10 = Inr []
   \<and> keyword_search sample_env (new_vector_store sample_env)
        \<lparr>bm25 = None, doc_ids = [], doc_summaries = []\<rparr> ''alpha'' 10 = Inr []
   \<and> retrieve sample_env (new_vector_store sample_env)
        \<lparr>bm25 = None, doc_ids = [], doc_summaries = []\<rparr> ''alpha'' 5 = Inr []"
proof -
  have h1: "encode sample_env (PStr ''alpha'') = Inr []"
    by (simp add: sample_env_def)
  have h2: "collection_query sample_env (create_collection sample_env) [] 10 = Inr []"
    by (simp add: sample_env_def)
  have h3: "collection_query sample_env (create_collection sample_env) [] (5 * 2) = Inr []"
    by (simp add: sample_env_def)
  have h4: "new_vector_store sample_env = new_vector_store sample_env
              \<or> new_vector_store sample_env = reset sample_env (new_vector_store sample_env)"
    by simp
  from empty_corpus_returns_empty [OF h4, where query = "''alpha''" and n = 10 and top_k = 5] h1 h2 h3
  show ?thesis by blast
qed

text \<open>
  C4 as stated says that index construction is short-circuited for a corpus of size 1 and
  so cannot crash. For a store with the single document \<open>gamma\<close> the constructor is
  called and its object is kept; for a store whose single document has an empty summary
  the corpus is \<open>[[]]\<close>, the constructor is called all the same, and its
  \<^verbatim>\<open>ZeroDivisionError\<close> leaves \<^verbatim>\<open>Retriever.__init__\<close>.
\<close>

theorem single_document_not_short_circuited:
  "add_documents sample_env sample_uuid4 [text_item ''gamma'' 1] (new_vector_store sample_env)
     = Inr (single_store ''gamma'')
   \<and> length (get_all_documents (single_store ''gamma'')) = 1
   \<and> new_retriever sample_env (single_store ''gamma'')
       = Inr \<lparr>bm25 = Some [[PStr ''gamma'']], doc_ids = [PStr ''d1''], doc_summaries = [PStr ''gamma'']\<rparr>
   \<and> add_documents sample_env sample_uuid4 [text_item [] 1] (new_vector_store sample_env)
       = Inr (single_store [])
   \<and> length (get_all_documents (single_store [])) = 1
   \<and> new_retriever sample_env (single_store []) = Inl ZeroDivisionError"
  by code_simp


section \<open>Keyword search\<close>

text \<open>
  C5 (as amended). For a retriever constructed on the store, every query and every
  \<open>n\<close>: when \<^verbatim>\<open>keyword_search\<close> returns and \<open>n\<close> is not negative, it returns at most
  \<open>n\<close> results. On the empty store the result is empty. On a store with documents the
  BM25 object is built from the summaries of the store, each tokenised by
  \<^verbatim>\<open>lower().split()\<close>, and the scores are those of the query tokenised in the same way. The
  results are the records of pairwise distinct documents of the store, each with a score
  above zero (so no document scoring zero is among them), in descending order of score.
  Their number is the smaller of the slice bound (\<open>n\<close> itself when it is not negative)
  and the number of documents with a score above zero, and every document with a score
  above zero that is left out scores no more than any document returned: the results are
  the best ones.
\<close>

theorem keyword_search_top_n:
  assumes "new_retriever env st = Inr r"
    and "keyword_search env st r query n = Inr results"
  shows "(0 \<le> n \<longrightarrow> length results \<le> nat n)
       \<and> (content_store st = [] \<and> results = []
          \<or> (\<exists>corpus b scores idxs.
                map Inr corpus = map (tokenize env) (store_summaries st)
              \<and> BM25Okapi env corpus = Inr b
              \<and> scores = get_scores env b (map PStr (str_tokens env query))
              \<and> results = map (\<lambda>i. keyword_result st (store_ids st ! i) (scores ! i)
                                  (store_summaries st ! i)) idxs
              \<and> distinct idxs
              \<and> (\<forall>i\<in>set idxs. i < length scores \<and> i < length (content_store st) \<and> 0 < scores ! i)
              \<and> sorted_wrt (\<lambda>i j. scores ! j \<le> scores ! i) idxs
              \<and> length idxs = min (if 0 \<le> n then nat n else nat (int (length scores) + n))
                                   (card {i. i < length scores \<and> 0 < scores ! i})
              \<and> (\<forall>i\<in>set idxs. \<forall>j. j < length scores \<and> 0 < scores ! j \<and> j \<notin> set idxs
                    \<longrightarrow> scores ! j \<le> scores ! i)))"
proof (cases "content_store st = []")
  case True
  with assms(1) have "bm25 r = None"
    by (auto simp: new_retriever_def build_keyword_index_empty)
  with assms(2) True show ?thesis
    by (simp add: keyword_search_def)
next
  case False
  from assms(1) have "build_keyword_index env st \<lparr>bm25 = None, doc_ids = [], doc_summaries = []\<rparr> = Inr r"
    by (simp add: new_retriever_def)
  from build_keyword_index_nonempty [OF this False] obtain corpus b where
    corpus: "map Inr corpus = map (tokenize env) (store_summaries st)"
    and b: "BM25Okapi env corpus = Inr b"
    and r: "r = \<lparr>bm25 = Some b, doc_ids = store_ids st, doc_summaries = store_summaries st\<rparr>"
    by blast
  define scores where "scores = get_scores env b (map PStr (str_tokens env query))"
  define idxs where "idxs = filter (\<lambda>i. 0 < scores ! i) (top_indices scores n)"
  from assms(2) r have loop: "keyword_loop st r scores (top_indices scores n) = Inr results"
    by (simp add: keyword_search_def tokenize_def Let_def scores_def)
  from keyword_loop_Inr [OF loop] r
  have res: "results = map (\<lambda>i. keyword_result st (store_ids st ! i) (scores ! i)
                                  (store_summaries st ! i)) idxs"
    by (simp add: idxs_def)
  from keyword_loop_range [OF loop] r
  have rng: "\<forall>i\<in>set idxs. i < length (content_store st)"
    by (simp add: idxs_def store_ids_def)
  note k = kept_indices [OF idxs_def]
  have len: "length results \<le> nat n" if "0 \<le> n"
    using that k(4) by (simp add: res)
  from k(2) rng have p: "\<forall>i\<in>set idxs. i < length scores \<and> i < length (content_store st) \<and> 0 < scores ! i"
    by blast
  from len corpus b res k(1) p k(3) k(4) k(5) scores_def show ?thesis
    by blast
qed

text \<open>The three sample documents, the query \<open>alpha beta\<close> and \<open>n = 1\<close>: the one result is d1.\<close>

theorem keyword_search_top_n_witness:
  "length [keyword_result sample_store (PStr ''d1'') 2 (PStr ''Alpha alpha'')] \<le> nat 1
       \<and> (content_store sample_store = []
            \<and> [keyword_result sample_store (PStr ''d1'') 2 (PStr ''Alpha alpha'')] = []
          \<or> (\<exists>corpus b scores idxs.
                map Inr corpus = map (tokenize sample_env) (store_summaries sample_store)
              \<and> BM25Okapi sample_env corpus = Inr b
              \<and> scores = get_scores sample_env b (map PStr (str_tokens sample_env ''alpha beta''))
              \<and> [keyword_result sample_store (PStr ''d1'') 2 (PStr ''Alpha alpha'')]
                  = map (\<lambda>i. keyword_result sample_store (store_ids sample_store ! i) (scores ! i)
                                  (store_summaries sample_store ! i)) idxs
              \<and> distinct idxs
              \<and> (\<forall>i\<in>set idxs. i < length scores \<and> i < length (content_store sample_store)
                    \<and> 0 < scores ! i)
              \<and> sorted_wrt (\<lambda>i j. scores ! j \<le> scores ! i) idxs
              \<and> length idxs = min (if (0::int) \<le> 1 then nat 1 else nat (int (length scores) + 1))
                                   (card {i. i < length scores \<and> 0 < scores ! i})
              \<and> (\<forall>i\<in>set idxs. \<forall>j. j < length scores \<and> 0 < scores ! j \<and> j \<notin> set idxs
                    \<longrightarrow> scores ! j \<le> scores ! i)))"
proof -
  have h2: "keyword_search sample_env sample_store sample_retriever ''alpha beta'' 1
              = Inr [keyword_result sample_store (PStr ''d1'') 2 (PStr ''Alpha alpha'')]"
    by code_simp
  have h3: "(0::int) \<le> 1" by simp
  from keyword_search_top_n [OF sample_built h2] h3 show ?thesis
    by blast
qed

text \<open>
  C5 as stated holds for every \<open>n\<close>. With \<open>n = -1\<close> the slice \<^verbatim>\<open>[:k]\<close> drops the last
  index only, and the search on the three sample documents returns two results.
\<close>

theorem keyword_search_negative_n:
  "add_documents sample_env sample_uuid4 sample_items (new_vector_store sample_env) = Inr sample_store
   \<and> new_retriever sample_env sample_store = Inr sample_retriever
   \<and> keyword_search sample_env sample_store sample_retriever ''alpha beta'' (- 1)
       = Inr [keyword_result sample_store (PStr ''d1'') 2 (PStr ''Alpha alpha''),
              keyword_result sample_store (PStr ''d2'') 1 (PStr ''beta'')]
   \<and> \<not> int (length [keyword_result sample_store (PStr ''d1'') 2 (PStr ''Alpha alpha''),
                       keyword_result sample_store (PStr ''d2'') 1 (PStr ''beta'')]) \<le> - 1"
  by code_simp


section \<open>Rebuilding the keyword index\<close>

text \<open>
  C6. When the index of a retriever has been built from a content store, rebuilding it
  from the same store returns the same retriever, so every keyword search gives the same
  result list after the rebuild as before it.
\<close>

theorem rebuild_same_results:
  assumes "build_keyword_index env st r0 = Inr r"
  shows "rebuild_index env st r = Inr r
         \<and> (\<exists>r'. rebuild_index env st r = Inr r'
               \<and> keyword_search env st r' query k = keyword_search env st r query k)"
  using build_keyword_index_idem [OF assms] by (simp add: rebuild_index_def)

text \<open>The sample retriever, rebuilt on the sample store.\<close>

theorem rebuild_same_results_witness:
  "rebuild_index sample_env sample_store sample_retriever = Inr sample_retriever
   \<and> (\<exists>r'. rebuild_index sample_env sample_store sample_retriever = Inr r'
         \<and> keyword_search sample_env sample_store r' ''alpha beta'' 10
             = keyword_search sample_env sample_store sample_retriever ''alpha beta'' 10)"
proof -
  have h: "build_keyword_index sample_env sample_store \<lparr>bm25 = None, doc_ids = [], doc_summaries = []\<rparr>
             = Inr sample_retriever"
    using sample_built by (simp add: new_retriever_def)
  show ?thesis
    by (rule rebuild_same_results [OF h])
qed


section \<open>Reset\<close>

text \<open>
  C7. After \<^verbatim>\<open>reset()\<close> the store has no document, but a retriever built before the reset
  keeps its index: \<^verbatim>\<open>rebuild_index()\<close> changes nothing, because \<^verbatim>\<open>_build_keyword_index\<close>
  assigns only when the store has documents, and \<^verbatim>\<open>retrieve\<close> returns the two documents
  of the old index that match the query, with no content, page or type. The store and the
  retriever are those reached by adding the three sample documents to a new store and
  constructing a retriever on it.
\<close>

theorem stale_index_after_reset:
  "add_documents sample_env sample_uuid4 sample_items (new_vector_store sample_env) = Inr sample_store
   \<and> new_retriever sample_env sample_store = Inr sample_retriever
   \<and> get_all_documents (reset sample_env sample_store) = []
   \<and> rebuild_index sample_env (reset sample_env sample_store) sample_retriever = Inr sample_retriever
   \<and> retrieve sample_env (reset sample_env sample_store) sample_retriever ''alpha beta'' 5
       = Inr [AList.update ''rrf_score'' (PNum (1 / 61)) (stale_result ''d1'' 2 ''Alpha alpha''),
              AList.update ''rrf_score'' (PNum (1 / 62)) (stale_result ''d2'' 1 ''beta'')]"
  by code_simp


section \<open>The fields of a fused result\<close>

text \<open>
  C8. Every record the fusion returns is the first record with its id among the inputs,
  read list after list, with \<^verbatim>\<open>rrf_score\<close> set: every field other than \<^verbatim>\<open>rrf_score\<close>
  (id, document, original_content, page, type, score, distance, metadata and any other)
  has the value it has in that first record.
\<close>

theorem rrf_fields_from_first_seen:
  assumes "reciprocal_rank_fusion rl k = Inr out" and "r \<in> set out"
  shows "\<exists>d src s. first_seen d rl = Some src \<and> map_of src ''id'' = Some d
           \<and> r = AList.update ''rrf_score'' (PNum s) src
           \<and> (\<forall>f. f \<noteq> ''rrf_score'' \<longrightarrow> map_of r f = map_of src f)"
  using assms(1)
proof (rule reciprocal_rank_fusion_Inr)
  fix sc
  assume keys: "set (map fst sc) = {d. \<exists>r\<in>set (concat rl). map_of r ''id'' = Some d}"
    and out: "out = map (\<lambda>(d, s). AList.update ''rrf_score'' (PNum s) (the (first_seen d rl)))
                      (sorted_docs sc)"
  from assms(2) out obtain d s where ds: "(d, s) \<in> set sc"
    and r: "r = AList.update ''rrf_score'' (PNum s) (the (first_seen d rl))"
    by (auto simp: sorted_docs_def)
  from ds have "d \<in> set (map fst sc)" by force
  with keys obtain x where "x \<in> set (concat rl)" "map_of x ''id'' = Some d"
    by blast
  then obtain src where src: "first_seen d rl = Some src" "map_of src ''id'' = Some d"
    by (rule first_seen_Some)
  with r have "r = AList.update ''rrf_score'' (PNum s) src" by simp
  with src show ?thesis
    by (auto simp: map_of_update_other)
qed

text \<open>
  The id b is second in the first list, with a distance, and first in the second list,
  with a score: the fused record for b carries the distance.
\<close>

theorem rrf_fields_from_first_seen_witness:
  "\<exists>d src s.
      first_seen d [[[(''id'', PStr ''a''), (''distance'', PNum 1)], [(''id'', PStr ''b''), (''distance'', PNum 2)]],
                    [[(''id'', PStr ''b''), (''score'', PNum 7)], [(''id'', PStr ''c''), (''score'', PNum 3)]]]
        = Some src
    \<and> map_of src ''id'' = Some d
    \<and> [(''id'', PStr ''b''), (''distance'', PNum 2), (''rrf_score'', PNum (1 / 62 + 1 / 61))]
        = AList.update ''rrf_score'' (PNum s) src
    \<and> (\<forall>f. f \<noteq> ''rrf_score'' \<longrightarrow>
          map_of [(''id'', PStr ''b''), (''distance'', PNum 2), (''rrf_score'', PNum (1 / 62 + 1 / 61))] f
            = map_of src f)"
proof -
  have h1: "reciprocal_rank_fusion
              [[[(''id'', PStr ''a''), (''distance'', PNum 1)], [(''id'', PStr ''b''), (''distance'', PNum 2)]],
               [[(''id'', PStr ''b''), (''score'', PNum 7)], [(''id'', PStr ''c''), (''score'', PNum 3)]]] 60
            = Inr [[(''id'', PStr ''b''), (''distance'', PNum 2), (''rrf_score'', PNum (1 / 62 + 1 / 61))],
                   [(''id'', PStr ''a''), (''distance'', PNum 1), (''rrf_score'', PNum (1 / 61))],
                   [(''id'', PStr ''c''), (''score'', PNum 3), (''rrf_score'', PNum (1 / 62))]]"
    by (simp add: reciprocal_rank_fusion_def rrf_step_def getitem_def sorted_docs_def Let_def)
  have h2: "[(''id'', PStr ''b''), (''distance'', PNum 2), (''rrf_score'', PNum (1 / 62 + 1 / 61))]
              \<in> set [[(''id'', PStr ''b''), (''distance'', PNum 2), (''rrf_score'', PNum (1 / 62 + 1 / 61))],
                     [(''id'', PStr ''a''), (''distance'', PNum 1), (''rrf_score'', PNum (1 / 61))],
                     [(''id'', PStr ''c''), (''score'', PNum 3), (''rrf_score'', PNum (1 / 62))]]"
    by simp
  show ?thesis
    by (rule rrf_fields_from_first_seen [OF h1 h2])
qed


section \<open>Ids that do not resolve in the content store\<close>

text \<open>
  C9 (as amended). A candidate whose id is not in the content store is neither dropped
  nor reported, and the query does not fail: whenever keyword search and dense search
  return, they return the same ids in the same order over any other content store, a
  keyword result whose id does not resolve has \<^verbatim>\<open>None\<close> as original_content, page and type
  and an empty metadata, and a dense result whose id does not resolve has \<^verbatim>\<open>None\<close> as
  original_content.
\<close>

theorem unresolved_ids_are_kept:
  assumes "keyword_search env st r query k = Inr kw"
    and "search env st query n = Inr dense"
  shows "(\<exists>kw'. keyword_search env (st\<lparr>content_store := cs\<rparr>) r query k = Inr kw'
            \<and> map (\<lambda>x. map_of x ''id'') kw' = map (\<lambda>x. map_of x ''id'') kw)
       \<and> (\<exists>dense'. search env (st\<lparr>content_store := cs\<rparr>) query n = Inr dense'
            \<and> map (\<lambda>x. map_of x ''id'') dense' = map (\<lambda>x. map_of x ''id'') dense)
       \<and> (\<forall>x\<in>set kw. \<forall>d. map_of x ''id'' = Some d \<and> get_original_content st d = None
            \<longrightarrow> map_of x ''original_content'' = Some PNone \<and> map_of x ''page'' = Some PNone
              \<and> map_of x ''type'' = Some PNone \<and> map_of x ''metadata'' = Some (PDict []))
       \<and> (\<forall>x\<in>set dense. \<forall>d. map_of x ''id'' = Some d \<and> get_original_content st d = None
            \<longrightarrow> map_of x ''original_content'' = Some PNone)"
proof -
  have a: "\<exists>kw'. keyword_search env (st\<lparr>content_store := cs\<rparr>) r query k = Inr kw'
            \<and> map (\<lambda>x. map_of x ''id'') kw' = map (\<lambda>x. map_of x ''id'') kw"
  proof (cases "bm25 r")
    case None
    with assms(1) show ?thesis by (simp add: keyword_search_def)
  next
    case (Some b)
    with assms(1) show ?thesis
      by (simp add: keyword_search_def tokenize_def Let_def keyword_loop_store)
  qed
  from assms(2) obtain e hits where e: "encode env (PStr query) = Inr e"
    and hits: "collection_query env (collection st) e n = Inr hits"
    and dense: "dense = map (format_hit st) hits"
    by (auto simp: search_def split: sum.splits if_splits)
  have b: "\<exists>dense'. search env (st\<lparr>content_store := cs\<rparr>) query n = Inr dense'
            \<and> map (\<lambda>x. map_of x ''id'') dense' = map (\<lambda>x. map_of x ''id'') dense"
    using e hits dense by (simp add: search_def format_hit_def)
  have c: "\<forall>x\<in>set kw. \<forall>d. map_of x ''id'' = Some d \<and> get_original_content st d = None
            \<longrightarrow> map_of x ''original_content'' = Some PNone \<and> map_of x ''page'' = Some PNone
              \<and> map_of x ''type'' = Some PNone \<and> map_of x ''metadata'' = Some (PDict [])"
    using keyword_search_Inr [OF assms(1)]
    by (auto simp: keyword_result_def Let_def)
  have d: "\<forall>x\<in>set dense. \<forall>d. map_of x ''id'' = Some d \<and> get_original_content st d = None
            \<longrightarrow> map_of x ''original_content'' = Some PNone"
    unfolding dense
    by (auto simp: format_hit_def get_original_content_def get_default_def)
  from a b c d show ?thesis by blast
qed

text \<open>The old index over the reset store returns the ids it returns over the store put back.\<close>

theorem unresolved_ids_are_kept_witness:
  "\<exists>kw'. keyword_search sample_env
            ((reset sample_env sample_store)\<lparr>content_store := content_store sample_store\<rparr>)
            sample_retriever ''alpha beta'' 10 = Inr kw'
        \<and> map (\<lambda>x. map_of x ''id'') kw'
            = map (\<lambda>x. map_of x ''id'') [stale_result ''d1'' 2 ''Alpha alpha'', stale_result ''d2'' 1 ''beta'']"
proof -
  have h2: "search sample_env (reset sample_env sample_store) ''alpha beta'' 10 = Inr []"
    by code_simp
  from unresolved_ids_are_kept [OF kw_stale h2, of "content_store sample_store"]
  show ?thesis by blast
qed

text \<open>
  C9 as stated says that every returned id resolves in the store. After a reset the
  retriever built before it returns d1 and d2, and d1 is not in the store.
\<close>

theorem orphan_result_returned:
  "add_documents sample_env sample_uuid4 sample_items (new_vector_store sample_env) = Inr sample_store
   \<and> new_retriever sample_env sample_store = Inr sample_retriever
   \<and> keyword_search sample_env (reset sample_env sample_store) sample_retriever ''alpha beta'' 10
       = Inr [stale_result ''d1'' 2 ''Alpha alpha'', stale_result ''d2'' 1 ''beta'']
   \<and> map_of (stale_result ''d1'' 2 ''Alpha alpha'') ''id'' = Some (PStr ''d1'')
   \<and> get_original_content (reset sample_env sample_store) (PStr ''d1'') = None"
  by code_simp


section \<open>Every id once, with the sum of its contributions\<close>

text \<open>
  C10. When every input result has a hashable id and no rank r of an input has
  k + r = 0, the fusion returns; the ids of the output are pairwise distinct and are
  exactly the ids of the inputs, however often an id occurs in one list or across lists;
  and the \<^verbatim>\<open>rrf_score\<close> of each output record is the sum of 1/(k + r) over all occurrences
  of its id.
\<close>

theorem rrf_each_id_once:
  assumes "\<forall>r\<in>set (concat rl). \<exists>d. map_of r ''id'' = Some d \<and> hashable d"
    and "\<forall>rs\<in>set rl. \<forall>i<length rs. k + int (Suc i) \<noteq> 0"
  shows "\<exists>out. reciprocal_rank_fusion rl k = Inr out
           \<and> distinct (map (\<lambda>r. map_of r ''id'') out)
           \<and> set (map (\<lambda>r. map_of r ''id'') out) = set (map (\<lambda>r. map_of r ''id'') (concat rl))
           \<and> (\<forall>r\<in>set out. \<exists>d. map_of r ''id'' = Some d
                 \<and> map_of r ''rrf_score'' = Some (PNum (rrf_total k d rl)))"
proof -
  from reciprocal_rank_fusion_total [OF assms] obtain out
    where res: "reciprocal_rank_fusion rl k = Inr out" ..
  from res show ?thesis
  proof (rule reciprocal_rank_fusion_Inr)
    fix sc
    assume dist: "distinct (map fst sc)"
      and keys: "set (map fst sc) = {d. \<exists>r\<in>set (concat rl). map_of r ''id'' = Some d}"
      and total: "\<And>d. d \<in> set (map fst sc) \<Longrightarrow> map_of sc d = Some (rrf_total k d rl)"
      and out: "out = map (\<lambda>(d, s). AList.update ''rrf_score'' (PNum s) (the (first_seen d rl)))
                        (sorted_docs sc)"
    have id_of: "map_of (AList.update ''rrf_score'' (PNum s) (the (first_seen d rl))) ''id'' = Some d"
      if "(d, s) \<in> set sc" for d s
    proof -
      from that have "d \<in> set (map fst sc)" by force
      with keys obtain x where "x \<in> set (concat rl)" "map_of x ''id'' = Some d"
        by blast
      then obtain src where "first_seen d rl = Some src" "map_of src ''id'' = Some d"
        by (rule first_seen_Some)
      then show ?thesis by (simp add: map_of_update_other)
    qed
    have ids: "map (\<lambda>r. map_of r ''id'') out = map (\<lambda>p. Some (fst p)) (sorted_docs sc)"
      unfolding out by (auto simp: sorted_docs_def id_of)
    have "distinct (map fst (sorted_docs sc))"
      using dist by (simp add: sorted_docs_def distinct_map)
    then have c1: "distinct (map (\<lambda>r. map_of r ''id'') out)"
      unfolding ids by (simp add: distinct_map inj_on_def)
    have "set (map (\<lambda>r. map_of r ''id'') out) = Some ` set (map fst sc)"
      unfolding ids by (auto simp: sorted_docs_def)
    also have "\<dots> = set (map (\<lambda>r. map_of r ''id'') (concat rl))"
      unfolding keys using assms(1) by force
    finally have c2: "set (map (\<lambda>r. map_of r ''id'') out)
                        = set (map (\<lambda>r. map_of r ''id'') (concat rl))" .
    have c3: "\<forall>r\<in>set out. \<exists>d. map_of r ''id'' = Some d
                 \<and> map_of r ''rrf_score'' = Some (PNum (rrf_total k d rl))"
    proof
      fix r assume "r \<in> set out"
      with out obtain d s where ds: "(d, s) \<in> set sc"
        and r: "r = AList.update ''rrf_score'' (PNum s) (the (first_seen d rl))"
        by (auto simp: sorted_docs_def)
      from ds have "d \<in> set (map fst sc)" by force
      then have "map_of sc d = Some (rrf_total k d rl)" by (rule total)
      moreover from dist ds have "map_of sc d = Some s" by simp
      ultimately have "s = rrf_total k d rl" by simp
      with r id_of [OF ds] show "\<exists>d. map_of r ''id'' = Some d
                 \<and> map_of r ''rrf_score'' = Some (PNum (rrf_total k d rl))"
        by (auto simp: AList.update_conv')
    qed
    from res c1 c2 c3 show ?thesis by blast
  qed
qed

text \<open>The id a twice in the first list, the id b in both lists, k = 60.\<close>

theorem rrf_each_id_once_witness:
  "\<exists>out. reciprocal_rank_fusion
            [[[(''id'', PStr ''a'')], [(''id'', PStr ''b'')], [(''id'', PStr ''a'')]], [[(''id'', PStr ''b'')]]] 60
          = Inr out
      \<and> distinct (map (\<lambda>r. map_of r ''id'') out)
      \<and> set (map (\<lambda>r. map_of r ''id'') out)
          = set (map (\<lambda>r. map_of r ''id'')
                  (concat [[[(''id'', PStr ''a'')], [(''id'', PStr ''b'')], [(''id'', PStr ''a'')]],
                           [[(''id'', PStr ''b'')]]]))
      \<and> (\<forall>r\<in>set out. \<exists>d. map_of r ''id'' = Some d
            \<and> map_of r ''rrf_score''
                = Some (PNum (rrf_total 60 d
                    [[[(''id'', PStr ''a'')], [(''id'', PStr ''b'')], [(''id'', PStr ''a'')]],
                     [[(''id'', PStr ''b'')]]])))"
proof -
  have h1: "\<forall>r\<in>set (concat [[[(''id'', PStr ''a'')], [(''id'', PStr ''b'')], [(''id'', PStr ''a'')]],
                             [[(''id'', PStr ''b'')]]]).
              \<exists>d. map_of r ''id'' = Some d \<and> hashable d"
    by simp
  have h2: "\<forall>rs\<in>set [[[(''id'', PStr ''a'')], [(''id'', PStr ''b'')], [(''id'', PStr ''a'')]],
                       [[(''id'', PStr ''b'')]]].
              \<forall>i<length rs. 60 + int (Suc i) \<noteq> 0"
    by simp
  show ?thesis
    by (rule rrf_each_id_once [OF h1 h2])
qed


end
